theory Spec2Isabelle
  imports Main "HOL-Library.Sublist"
begin

section \<open>Bookmark grouping (webextensions/common/bookmark.js)\<close>

subsection \<open>Data\<close>

text \<open>
  A bookmark record as delivered by \<^verbatim>\<open>browser.bookmarks.onCreated\<close>. Folders and
  separators carry no \<^verbatim>\<open>url\<close>; \<^verbatim>\<open>Array.prototype.join\<close> prints a missing element as
  the empty string.
\<close>

record bookmark =
  bm_id :: string
  bm_parentId :: string
  bm_title :: string
  bm_url :: "string option"
  bm_index :: nat

text \<open>
  The fields of a tab that bookmark.js reads. \<^verbatim>\<open>tab_level\<close> is the \<^verbatim>\<open>kLEVEL\<close>
  attribute, a decimal numeral written by the tree code; a missing attribute reads as
  \<^verbatim>\<open>'0'\<close>.
\<close>

record tab =
  tab_id :: nat
  tab_title :: string
  tab_url :: string
  tab_level :: "nat option"
  tab_isGroupTab :: bool

text \<open>\<^verbatim>\<open>configs.lastDraggedTabs\<close>, written by the drag-and-drop code.\<close>

record dragged =
  tabIds :: "nat list"
  urlsDigest :: string

text \<open>The mutating calls of \<^verbatim>\<open>browser.bookmarks\<close>, as issued.\<close>

datatype request =
    CreateFolder string "nat option" "string option"
  | CreateBookmark "string option" "nat option" string string
  | Move string string nat
  | Remove string
  | Update string string

datatype error = TypeError | HostError

datatype 'a outcome = Resolved 'a | Rejected

text \<open>
  Timers of the host. \<^verbatim>\<open>wait(150).then(() => mCreatingCount -= k)\<close> is a timer with
  callback \<open>Decrement k\<close>; the debounce timer of \<^verbatim>\<open>reserveToGroupCreatedBookmarks\<close>
  has callback \<open>Flush\<close>.
\<close>

datatype callback = Decrement int | Flush

record timer =
  timer_id :: nat
  timer_due :: nat
  timer_cb :: callback

text \<open>
  The module state of bookmark.js together with the pieces of the host it writes to:
  the pending timers, the clock, and the log of bookmark requests issued so far.
  \<^verbatim>\<open>reserved\<close> is \<^verbatim>\<open>reserveToGroupCreatedBookmarks.reserved\<close>.
\<close>

record engine =
  mCreatingCount :: int
  mCreatedBookmarks :: "bookmark list"
  reserved :: "nat option"
  lastDraggedTabs :: "dragged option"
  timers :: "timer list"
  clock :: nat
  nextTimer :: nat
  issued :: "request list"

text \<open>
  What the collaborators answer. \<^verbatim>\<open>create\<close> is the value of
  \<^verbatim>\<open>browser.bookmarks.create(...).catch(ApiTabs.createErrorHandler())\<close>: the id of the new
  item, \<open>Resolved None\<close> when the handler swallowed a failure (the expression is then
  \<^verbatim>\<open>undefined\<close>), \<open>Rejected\<close> when it threw again. \<^verbatim>\<open>move\<close> tells whether
  \<^verbatim>\<open>browser.bookmarks.move\<close> resolves. \<^verbatim>\<open>sha1sum\<close> is the digest utility of common.js.
  \<^verbatim>\<open>showInPopup\<close> is what the dialog gives back: \<open>None\<close> when it was dismissed or
  failed, else the values of its fields. \<^verbatim>\<open>bookmarkTreeFolderName\<close> is the configured
  folder name with its placeholders filled in from the first tab and the date.
\<close>

record dialog_values =
  dv_title :: string
  dv_url :: string
  dv_parentId :: "string option"

record env =
  sha1sum :: "string \<Rightarrow> string"
  getChildren :: "string \<Rightarrow> bookmark list outcome"
  create :: "request \<Rightarrow> string option outcome"
  move :: "string \<Rightarrow> string \<Rightarrow> nat \<Rightarrow> bool"
  Tab_get :: "nat \<Rightarrow> tab option"
  bookmarks_get :: "string \<Rightarrow> bookmark list outcome"
  showInPopup :: "dialog_values option"
  defaultBookmarkParentId :: string
  bookmarkTreeFolderName :: "tab \<Rightarrow> string"
  isGranted :: bool

subsection \<open>getTitlesWithTreeStructure\<close>

definition level_of :: "tab \<Rightarrow> nat" where
  "level_of t = (case tab_level t of None \<Rightarrow> 0 | Some n \<Rightarrow> n)"

text \<open>\<^verbatim>\<open>title.replace(/^>+ /, '')\<close>: a run of markers followed by one space is cut off.\<close>

definition strip_marker :: "string \<Rightarrow> string" where
  "strip_marker s =
     (case dropWhile (\<lambda>c. c = CHR ''>'') s of
        c # rest \<Rightarrow> if c = CHR '' '' \<and> takeWhile (\<lambda>c. c = CHR ''>'') s \<noteq> [] then rest else s
      | [] \<Rightarrow> s)"

definition title_for :: "nat \<Rightarrow> tab \<Rightarrow> string" where
  "title_for minLevel t =
     (let level = level_of t - minLevel;
          prefix = replicate level (CHR ''>'')
      in if prefix \<noteq> [] then prefix @ '' '' @ tab_title t
         else strip_marker (tab_title t))"

text \<open>
  \<^verbatim>\<open>Math.min\<close> of no argument is \<^verbatim>\<open>Infinity\<close>, and the loop then runs over no tab.
\<close>

definition getTitlesWithTreeStructure :: "tab list \<Rightarrow> string list" where
  "getTitlesWithTreeStructure tabs =
     (case tabs of
        [] \<Rightarrow> []
      | t # ts \<Rightarrow>
          (let minLevel = fold min (map level_of ts) (level_of t)
           in map (title_for minLevel) tabs))"

subsection \<open>tryGroupCreatedBookmarks\<close>

fun join_lines :: "string list \<Rightarrow> string" where
  "join_lines [] = []"
| "join_lines [x] = x"
| "join_lines (x # y # ys) = x @ [CHR 0x0A] @ join_lines (y # ys)"

definition url_text :: "bookmark \<Rightarrow> string" where
  "url_text b = (case bm_url b of None \<Rightarrow> [] | Some u \<Rightarrow> u)"

definition issue :: "request \<Rightarrow> engine \<Rightarrow> engine" where
  "issue r e = e\<lparr>issued := issued e @ [r]\<rparr>"

text \<open>\<^verbatim>\<open>wait(150).then(() => { mCreatingCount -= k })\<close>\<close>

definition wait150 :: "int \<Rightarrow> engine \<Rightarrow> engine" where
  "wait150 k e =
     e\<lparr>timers := timers e @ [\<lparr>timer_id = nextTimer e, timer_due = clock e + 150,
                               timer_cb = Decrement k\<rparr>],
       nextTimer := nextTimer e + 1\<rparr>"

text \<open>
  The loop of awaited moves. A rejected move ends the function there; the folder id is
  read in the first round, so an undefined folder is a \<^verbatim>\<open>TypeError\<close> before any move.
\<close>

fun move_all :: "env \<Rightarrow> string \<Rightarrow> bookmark list \<Rightarrow> nat \<Rightarrow> engine \<Rightarrow> engine \<times> error option" where
  "move_all h fid [] movedCount e = (e, None)"
| "move_all h fid (b # bs) movedCount e =
     (let e' = issue (Move (bm_id b) fid movedCount) e
      in if move h (bm_id b) fid movedCount then move_all h fid bs (movedCount + 1) e'
         else (e', Some HostError))"

text \<open>
  The last loop: \<^verbatim>\<open>tabs[i].title\<close> is read for every bookmark, so a bookmark with no tab
  at its index is a \<^verbatim>\<open>TypeError\<close>; the updates are not awaited.
\<close>

fun save_titles :: "bookmark list \<Rightarrow> (tab \<times> string) list \<Rightarrow> engine \<Rightarrow> engine \<times> error option" where
  "save_titles [] _ e = (e, None)"
| "save_titles (b # bs) [] e = (e, Some TypeError)"
| "save_titles (b # bs) ((t, title) # rest) e =
     save_titles bs rest (if title = tab_title t then e else issue (Update (bm_id b) title) e)"

definition has_marker :: "string \<Rightarrow> bool" where
  "has_marker title = (case title of [] \<Rightarrow> False | c # _ \<Rightarrow> c = CHR ''>'')"

definition retitle :: "env \<Rightarrow> dragged \<Rightarrow> bookmark list \<Rightarrow> engine \<Rightarrow> engine \<times> error option" where
  "retitle h lastDragged bookmarks e =
     (case those (map (Tab_get h) (tabIds lastDragged)) of
        None \<Rightarrow> (e, Some TypeError)
      | Some tabs \<Rightarrow>
          (let titles = getTitlesWithTreeStructure tabs
           in case tabs of
                [] \<Rightarrow> (e, Some TypeError)
              | t0 # rest \<Rightarrow>
                  if tab_isGroupTab t0 \<and> length (filter (\<lambda>title. \<not> has_marker title) titles) = 1
                  then (case bookmarks of
                          [] \<Rightarrow> (e, Some TypeError)
                        | b0 # bs \<Rightarrow>
                            save_titles bs (zip rest (getTitlesWithTreeStructure rest))
                              (issue (Remove (bm_id b0)) e))
                  else save_titles bookmarks (zip tabs titles) e))"

definition group_bookmarks ::
  "env \<Rightarrow> dragged \<Rightarrow> bookmark list \<Rightarrow> bookmark \<Rightarrow> string \<Rightarrow> engine \<Rightarrow> engine \<times> error option" where
  "group_bookmarks h lastDragged bookmarks first parentId e =
     (let e1 = e\<lparr>mCreatingCount := mCreatingCount e + 1\<rparr>;
          req = CreateFolder (bm_title first) (Some (bm_index first)) (Some parentId);
          e2 = issue req e1
      in case create h req of
           Rejected \<Rightarrow> (e2, Some HostError)
         | Resolved folder \<Rightarrow>
             (let e3 = wait150 1 e2
              in case folder of
                   None \<Rightarrow> (e3, Some TypeError)
                 | Some fid \<Rightarrow>
                     (case move_all h fid bookmarks 0 e3 of
                        (e4, Some err) \<Rightarrow> (e4, Some err)
                      | (e4, None) \<Rightarrow> retitle h lastDragged bookmarks e4)))"

definition tryGroupCreatedBookmarks :: "env \<Rightarrow> engine \<Rightarrow> engine \<times> error option" where
  "tryGroupCreatedBookmarks h e =
     (let bookmarks = mCreatedBookmarks e;
          e1 = e\<lparr>mCreatedBookmarks := []\<rparr>;
          lastDragged = lastDraggedTabs e1;
          digest = sha1sum h (join_lines (map url_text bookmarks));
          e2 = e1\<lparr>lastDraggedTabs := None\<rparr>
      in case lastDragged of
           None \<Rightarrow> (e2, Some TypeError)
         | Some r \<Rightarrow>
             if digest \<noteq> urlsDigest r then (e2, None)
             else if length bookmarks < 2 then (e2, None)
             else if length (remdups (map bm_parentId bookmarks)) > 1 then (e2, None)
             else (case bookmarks of
                     [] \<Rightarrow> (e2, Some TypeError)
                   | first # _ \<Rightarrow>
                       (case getChildren h (bm_parentId first) of
                          Rejected \<Rightarrow> (e2, Some HostError)
                        | Resolved allChildren \<Rightarrow>
                            if length allChildren = length bookmarks then (e2, None)
                            else group_bookmarks h r bookmarks first (bm_parentId first) e2)))"

subsection \<open>bookmarkTab and bookmarkTabs\<close>

record options =
  opt_parentId :: "string option"
  opt_index :: "nat option"
  opt_showDialog :: bool

text \<open>
  \<^verbatim>\<open>getItemById\<close>: no id, a failed lookup and an empty answer all give \<^verbatim>\<open>null\<close>.
\<close>

definition getItemById :: "env \<Rightarrow> string option \<Rightarrow> bookmark option" where
  "getItemById h ident =
     (case ident of
        None \<Rightarrow> None
      | Some i \<Rightarrow>
          if i = [] then None
          else (case bookmarks_get h i of
                  Resolved (item # _) \<Rightarrow> Some item
                | Resolved [] \<Rightarrow> None
                | Rejected \<Rightarrow> None))"

definition truthy :: "string option \<Rightarrow> bool" where
  "truthy s = (case s of None \<Rightarrow> False | Some v \<Rightarrow> v \<noteq> [])"

text \<open>
  The result is the engine and either the error thrown or the value returned
  (\<open>None\<close> for \<^verbatim>\<open>null\<close> and \<^verbatim>\<open>undefined\<close>, else the id of the item created).
\<close>

definition bookmarkTab :: "env \<Rightarrow> tab \<Rightarrow> options \<Rightarrow> engine \<Rightarrow> engine \<times> (error + string option)" where
  "bookmarkTab h t opts e =
     (if \<not> isGranted h then (e, Inr None)
      else
        (let parent = getItemById h
               (if truthy (opt_parentId opts) then opt_parentId opts
                else Some (defaultBookmarkParentId h));
             shown = (if opt_showDialog opts then showInPopup h
                      else Some \<lparr>dv_title = tab_title t, dv_url = tab_url t,
                                 dv_parentId = map_option bm_id parent\<rparr>)
         in case shown of
              None \<Rightarrow> (e, Inr None)
            | Some v \<Rightarrow>
                (let e1 = e\<lparr>mCreatingCount := mCreatingCount e + 1\<rparr>;
                     req = CreateBookmark (dv_parentId v) None (dv_title v) (dv_url v);
                     e2 = issue req e1
                 in case create h req of
                      Rejected \<Rightarrow> (e2, Inl HostError)
                    | Resolved item \<Rightarrow> (wait150 1 e2, Inr item))))"

text \<open>
  The loop of child creations; \<^verbatim>\<open>createErrorSuppressor\<close> lets every round go on to the
  next one whatever the store answers.
\<close>

fun create_children :: "string \<Rightarrow> nat \<Rightarrow> (tab \<times> string) list \<Rightarrow> engine \<Rightarrow> engine" where
  "create_children fid i [] e = e"
| "create_children fid i ((t, title) # rest) e =
     create_children fid (i + 1) rest
       (issue (CreateBookmark (Some fid) (Some i) title (tab_url t)) e)"

definition bookmarkTabs :: "env \<Rightarrow> tab list \<Rightarrow> options \<Rightarrow> engine \<Rightarrow> engine \<times> (error + string option)" where
  "bookmarkTabs h tabs opts e =
     (if \<not> isGranted h then (e, Inr None)
      else case tabs of
        [] \<Rightarrow> (e, Inl TypeError)
      | t0 # _ \<Rightarrow>
        (let parent = (if truthy (opt_parentId opts) then getItemById h (opt_parentId opts)
                       else getItemById h (Some (defaultBookmarkParentId h)));
             index = (if truthy (opt_parentId opts) then opt_index opts else None);
             shown = (if opt_showDialog opts then showInPopup h
                      else Some \<lparr>dv_title = bookmarkTreeFolderName h t0, dv_url = [],
                                 dv_parentId = map_option bm_id parent\<rparr>)
         in case shown of
              None \<Rightarrow> (e, Inr None)
            | Some v \<Rightarrow>
                (let toBeCreatedCount = int (length tabs) + 1;
                     e1 = e\<lparr>mCreatingCount := mCreatingCount e + toBeCreatedCount\<rparr>;
                     titles = getTitlesWithTreeStructure tabs;
                     req = CreateFolder (dv_title v) index (dv_parentId v);
                     e2 = issue req e1
                 in case create h req of
                      Rejected \<Rightarrow> (e2, Inl HostError)
                    | Resolved None \<Rightarrow> (e2, Inl TypeError)
                    | Resolved (Some fid) \<Rightarrow>
                        (wait150 toBeCreatedCount (create_children fid 0 (zip tabs titles) e2),
                         Inr (Some fid)))))"

subsection \<open>onBookmarksCreated and the debounce timer\<close>

text \<open>
  \<^verbatim>\<open>clearTimeout\<close> and \<^verbatim>\<open>setTimeout\<close>. The host hands out positive timer ids, so a
  stored id is always truthy.
\<close>

definition clearTimeout :: "nat \<Rightarrow> engine \<Rightarrow> engine" where
  "clearTimeout i e = e\<lparr>timers := filter (\<lambda>t. timer_id t \<noteq> i) (timers e)\<rparr>"

definition reserveToGroupCreatedBookmarks :: "engine \<Rightarrow> engine" where
  "reserveToGroupCreatedBookmarks e =
     (let e1 = (case reserved e of Some i \<Rightarrow> clearTimeout i e | None \<Rightarrow> e)
      in e1\<lparr>timers := timers e1 @ [\<lparr>timer_id = nextTimer e1, timer_due = clock e1 + 250,
                                    timer_cb = Flush\<rparr>],
            reserved := Some (nextTimer e1),
            nextTimer := nextTimer e1 + 1\<rparr>)"

definition onBookmarksCreated :: "env \<Rightarrow> bookmark \<Rightarrow> engine \<Rightarrow> engine" where
  "onBookmarksCreated h b e =
     (if \<not> isGranted h \<or> mCreatingCount e > 0 then e
      else reserveToGroupCreatedBookmarks (e\<lparr>mCreatedBookmarks := mCreatedBookmarks e @ [b]\<rparr>))"

subsection \<open>The event loop\<close>

text \<open>
  A timer that is due is taken off the list and its callback runs. The callback of the
  debounce timer clears \<^verbatim>\<open>reserved\<close> and calls \<^verbatim>\<open>tryGroupCreatedBookmarks\<close>, whose
  promise nobody awaits: an error in it is lost.
\<close>

definition fire :: "env \<Rightarrow> timer \<Rightarrow> engine \<Rightarrow> engine" where
  "fire h t e =
     (let e1 = e\<lparr>timers := filter (\<lambda>u. timer_id u \<noteq> timer_id t) (timers e)\<rparr>
      in case timer_cb t of
           Decrement k \<Rightarrow> e1\<lparr>mCreatingCount := mCreatingCount e1 - k\<rparr>
         | Flush \<Rightarrow> fst (tryGroupCreatedBookmarks h (e1\<lparr>reserved := None\<rparr>)))"

definition elapse :: "env \<Rightarrow> engine \<Rightarrow> engine" where
  "elapse h e =
     (let e1 = e\<lparr>clock := clock e + 1\<rparr>
      in fold (fire h) (filter (\<lambda>t. timer_due t \<le> clock e1) (timers e1)) e1)"

text \<open>
  What can happen to the module: a bookmark is created in the store, one unit of time
  passes, somebody drags tabs (and writes \<^verbatim>\<open>configs.lastDraggedTabs\<close>), or one of the
  exported functions is called. Each event carries what the collaborators answer
  during it; a call runs to its end within the event, only its timers stay behind.
\<close>

datatype event =
    BookmarkCreated env bookmark
  | Elapse env
  | DragTabs dragged
  | CallBookmarkTab env tab options
  | CallBookmarkTabs env "tab list" options

fun step :: "event \<Rightarrow> engine \<Rightarrow> engine" where
  "step (BookmarkCreated h b) e = onBookmarksCreated h b e"
| "step (Elapse h) e = elapse h e"
| "step (DragTabs d) e = e\<lparr>lastDraggedTabs := Some d\<rparr>"
| "step (CallBookmarkTab h t opts) e = fst (bookmarkTab h t opts e)"
| "step (CallBookmarkTabs h tabs opts) e = fst (bookmarkTabs h tabs opts e)"

definition run :: "event list \<Rightarrow> engine \<Rightarrow> engine" where
  "run evs e = fold step evs e"

definition init :: engine where
  "init = \<lparr>mCreatingCount = 0, mCreatedBookmarks = [], reserved = None,
           lastDraggedTabs = None, timers = [], clock = 0, nextTimer = 1, issued = []\<rparr>"

definition is_flush :: "timer \<Rightarrow> bool" where
  "is_flush t = (timer_cb t = Flush)"


section \<open>Placing new tabs (webextensions/background/handle-new-tabs.js)\<close>

subsection \<open>Data\<close>

text \<open>
  Tabs are named by their ids. The listeners keep two private marks on a tab
  (\<^verbatim>\<open>tab.$TST.isNewTab\<close> and \<^verbatim>\<open>tab.$TST.possibleOpenerTab\<close>) and one attribute
  (\<^verbatim>\<open>data-original-opener-tab-id\<close>, kept here as the opener it was taken from).
\<close>

record marks =
  isNewTab :: bool
  possibleOpenerTab :: "nat option"
  originalOpener :: "nat option"

text \<open>The \<^verbatim>\<open>info\<close> argument of the \<^verbatim>\<open>Tabs.onCreating\<close> listener.\<close>

record creation_info =
  duplicatedInternally :: bool
  info_activeTab :: "nat option"
  maybeOrphan :: bool
  positionedBySelf :: bool

text \<open>The \<^verbatim>\<open>changeInfo\<close> argument of the \<^verbatim>\<open>Tabs.onUpdated\<close> listener.\<close>

record change_info =
  ci_url :: "string option"
  ci_status :: "string option"
  ci_openerTabId :: bool

text \<open>The options of \<^verbatim>\<open>configs\<close> the listeners read.\<close>

record configs =
  autoAttach :: bool
  autoAttachOnNewTabCommand :: nat
  autoAttachOnOpenedWithOwner :: nat
  autoAttachSameSiteOrphan :: nat
  autoGroupNewTabsFromPinned :: bool
  insertNewTabFromPinnedTabAtEnd :: bool
  inheritContextualIdentityToNewChildTab :: bool
  inheritContextualIdentityToSameSiteOrphan :: bool
  syncParentTabAndOpenerTab :: bool

text \<open>
  What the modules \<^verbatim>\<open>Tabs\<close>, \<^verbatim>\<open>Tree\<close> and \<^verbatim>\<open>TabsMove\<close> answer during one event.
  \<^verbatim>\<open>getActiveTab\<close> is asked for the window of the new tab. \<^verbatim>\<open>openedNewTabs\<close> is the list
  kept by the tracked window of the tab, \<open>None\<close> when \<^verbatim>\<open>Tabs.trackedWindows\<close> has no entry
  for it. \<^verbatim>\<open>Tabs.getParentTab\<close> is asked at two moments: \<^verbatim>\<open>getParentTab\<close> is its answer
  when the listener runs, \<^verbatim>\<open>getParentTabAttached\<close> its answer inside
  \<^verbatim>\<open>handleNewTabFromActiveTab\<close>, after the awaited \<^verbatim>\<open>Tree.behaveAutoAttachedTab\<close> has
  attached the tab or left it alone. \<^verbatim>\<open>behaveAutoAttachedTab\<close> and \<^verbatim>\<open>moveTabAfter\<close> are the values the promises
  of \<^verbatim>\<open>Tree.behaveAutoAttachedTab\<close> and \<^verbatim>\<open>TabsMove.moveTabAfter\<close> resolve to: whether
  the tab was moved.
\<close>

record registry =
  getActiveTab :: "nat option"
  getOpenerTab :: "nat \<Rightarrow> nat option"
  getNextTab :: "nat \<Rightarrow> nat option"
  getParentTab :: "nat \<Rightarrow> nat option"
  getParentTabAttached :: "nat \<Rightarrow> nat option"
  getLastTab :: "nat option"
  getTabElementById :: "nat \<Rightarrow> nat option"
  isNewTabCommandTab :: "nat \<Rightarrow> bool"
  isPinned :: "nat \<Rightarrow> bool"
  parentNode :: "nat \<Rightarrow> nat"
  windowId :: "nat \<Rightarrow> nat"
  url :: "nat \<Rightarrow> string"
  cookieStoreId :: "nat \<Rightarrow> string"
  openedNewTabs :: "nat list option"
  behaveAutoAttachedTab :: bool
  moveTabAfter :: bool

text \<open>The calls the listeners make, in the order they are made.\<close>

datatype action =
    BehaveAutoAttachedTab nat "nat option" nat bool
  | MoveTabAfter nat "nat option"
  | OpenNewTab nat nat string
  | RemoveTab nat
  | AttachTabTo nat nat

subsection \<open>handleNewTabFromActiveTab\<close>

text \<open>
  The tab, the active tab, the behaviour and whether the contextual identity is to be
  inherited. The parent is read after the attachment; when the tab has got a parent in
  another container and the identity is to be inherited, a new tab is opened under that
  parent and the tab is removed. The result is the calls made and the value returned, which is always what
  \<^verbatim>\<open>Tree.behaveAutoAttachedTab\<close> answered.
\<close>

definition handleNewTabFromActiveTab ::
  "registry \<Rightarrow> nat \<Rightarrow> nat \<Rightarrow> nat \<Rightarrow> bool \<Rightarrow> action list \<times> bool" where
  "handleNewTabFromActiveTab reg t activeTab behavior inherit =
     (let moved = behaveAutoAttachedTab reg;
          attach = BehaveAutoAttachedTab t (Some activeTab) behavior False
      in case getParentTabAttached reg t of
           None \<Rightarrow> ([attach], moved)
         | Some parent \<Rightarrow>
             if \<not> inherit \<or> cookieStoreId reg t \<noteq> ''firefox-default'' \<or>
                cookieStoreId reg t = cookieStoreId reg parent
             then ([attach], moved)
             else ([attach, OpenNewTab parent t (cookieStoreId reg activeTab), RemoveTab t], moved))"

subsection \<open>The listener of Tabs.onCreating\<close>

text \<open>
  \<^verbatim>\<open>(info.activeTab && info.activeTab.$TST.element) || Tabs.getActiveTab(...)\<close>
\<close>

definition possibleOpener :: "registry \<Rightarrow> creation_info \<Rightarrow> nat option" where
  "possibleOpener reg info =
     (case info_activeTab info of Some a \<Rightarrow> Some a | None \<Rightarrow> getActiveTab reg)"

text \<open>
  The result is the marks of the tab after the call, the calls made, and the value the
  listener returns (for a promise, the value it resolves to).
\<close>

definition onCreating ::
  "configs \<Rightarrow> registry \<Rightarrow> nat \<Rightarrow> creation_info \<Rightarrow> marks \<Rightarrow> marks \<times> action list \<times> bool" where
  "onCreating cfg reg t info m =
     (if duplicatedInternally info then (m, [], True)
      else
        case getOpenerTab reg t of
          None \<Rightarrow>
            (case possibleOpener reg info of
               None \<Rightarrow> (m, [], True)
             | Some p \<Rightarrow>
                 if \<not> maybeOrphan info \<and> getNextTab reg t = None then
                   if isNewTabCommandTab reg t then
                     if \<not> positionedBySelf info then
                       (case handleNewTabFromActiveTab reg t p (autoAttachOnNewTabCommand cfg)
                               (inheritContextualIdentityToNewChildTab cfg) of
                          (acts, moved) \<Rightarrow> (m, acts, \<not> moved))
                     else (m, [], False)
                   else
                     ((if p \<noteq> t then m\<lparr>possibleOpenerTab := Some p\<rparr> else m)\<lparr>isNewTab := True\<rparr>,
                      [], True)
                 else (m, [], True))
        | Some opener \<Rightarrow>
            (let m1 = m\<lparr>originalOpener := Some opener\<rparr>
             in if isPinned reg opener \<and> parentNode reg opener = parentNode reg t then
                  if autoGroupNewTabsFromPinned cfg then (m1, [], False)
                  else if insertNewTabFromPinnedTabAtEnd cfg
                  then (m1, [MoveTabAfter t (getLastTab reg)], \<not> moveTabAfter reg)
                  else (m1, [], True)
                else if \<not> maybeOrphan info \<and> autoAttach cfg
                then (m1, [BehaveAutoAttachedTab t (Some opener) (autoAttachOnOpenedWithOwner cfg)
                             (positionedBySelf info)],
                      \<not> behaveAutoAttachedTab reg)
                else (m1, [], True)))"

subsection \<open>The listener of Tabs.onUpdated\<close>

text \<open>
  The pattern \<^verbatim>\<open>/^\w+:\/\/([^\/]+)(?:$|\/.*$)/\<close> and its first group: word characters,
  \<^verbatim>\<open>://\<close>, then the longest run without a slash, which must not be empty; what follows
  a slash must hold no line terminator, since \<^verbatim>\<open>.\<close> matches none.
\<close>

definition word_char :: "char \<Rightarrow> bool" where
  "word_char c =
     (c \<in> set ''abcdefghijklmnopqrstuvwxyzABCDEFGHIJKLMNOPQRSTUVWXYZ0123456789_'')"

definition line_terminator :: "char \<Rightarrow> bool" where
  "line_terminator c = (c = CHR 0x0A \<or> c = CHR 0x0D)"

definition site_of :: "string \<Rightarrow> string option" where
  "site_of u =
     (let scheme = takeWhile word_char u;
          rest = dropWhile word_char u;
          host = takeWhile (\<lambda>c. c \<noteq> CHR ''/'') (drop 3 rest);
          path = dropWhile (\<lambda>c. c \<noteq> CHR ''/'') (drop 3 rest)
      in if scheme = [] \<or> take 3 rest \<noteq> ''://'' \<or> host = [] \<or> list_ex line_terminator path
         then None else Some host)"

definition truthy_text :: "string option \<Rightarrow> bool" where
  "truthy_text s = (case s of None \<Rightarrow> False | Some v \<Rightarrow> v \<noteq> [])"

text \<open>\<^verbatim>\<open>changeInfo.url || changeInfo.status == 'complete'\<close>\<close>

definition navigated :: "change_info \<Rightarrow> bool" where
  "navigated ci = (truthy_text (ci_url ci) \<or> ci_status ci = Some ''complete'')"

text \<open>
  The first block of the listener: when the opener changed and the option is set, the
  tab is attached to its opener once all tabs of the window exist.
\<close>

definition syncOpener :: "configs \<Rightarrow> registry \<Rightarrow> nat \<Rightarrow> change_info \<Rightarrow> action list" where
  "syncOpener cfg reg t ci =
     (if ci_openerTabId ci \<and> syncParentTabAndOpenerTab cfg then
        (case getOpenerTab reg t of
           None \<Rightarrow> []
         | Some parent \<Rightarrow>
             if windowId reg parent \<noteq> windowId reg t \<or> getParentTab reg t = Some parent then []
             else [AttachTabTo t parent])
      else [])"

text \<open>
  The second block. The marks are deleted before anything else is looked at; a window
  that is not tracked makes \<^verbatim>\<open>window.openedNewTabs\<close> a \<^verbatim>\<open>TypeError\<close>.
\<close>

definition resolveNewTab ::
  "configs \<Rightarrow> registry \<Rightarrow> nat \<Rightarrow> change_info \<Rightarrow> marks \<Rightarrow> marks \<times> action list \<times> bool" where
  "resolveNewTab cfg reg t ci m =
     (if navigated ci \<and> isNewTab m then
        (let opener = (case possibleOpenerTab m of None \<Rightarrow> None | Some i \<Rightarrow> getTabElementById reg i);
             m' = m\<lparr>isNewTab := False, possibleOpenerTab := None\<rparr>
         in case openedNewTabs reg of
              None \<Rightarrow> (m', [], True)
            | Some toBeGroupedTabs \<Rightarrow>
                (case opener of
                   None \<Rightarrow> (m', [], False)
                 | Some p \<Rightarrow>
                     if getParentTab reg t = None \<and> t \<notin> set toBeGroupedTabs then
                       if isNewTabCommandTab reg t then
                         (m', fst (handleNewTabFromActiveTab reg t p (autoAttachOnNewTabCommand cfg)
                                     (inheritContextualIdentityToNewChildTab cfg)), False)
                       else
                         (case (site_of (url reg p), site_of (url reg t)) of
                            (Some openerTabSite, Some newTabSite) \<Rightarrow>
                              if openerTabSite = newTabSite then
                                (m', fst (handleNewTabFromActiveTab reg t p (autoAttachSameSiteOrphan cfg)
                                            (inheritContextualIdentityToSameSiteOrphan cfg)), False)
                              else (m', [], False)
                          | _ \<Rightarrow> (m', [], False))
                     else (m', [], False)))
      else (m, [], False))"

text \<open>
  The whole listener: the marks after the call, the calls made, and whether it threw.
\<close>

definition onUpdated ::
  "configs \<Rightarrow> registry \<Rightarrow> nat \<Rightarrow> change_info \<Rightarrow> marks \<Rightarrow> marks \<times> action list \<times> bool" where
  "onUpdated cfg reg t ci m =
     (case resolveNewTab cfg reg t ci m of
        (m', acts, threw) \<Rightarrow> (m', acts @ syncOpener cfg reg t ci, threw))"

text \<open>
  A tab lives through a sequence of updates, each met by its own answers of the
  collaborators. The calls of all of them are collected.
\<close>

fun updates :: "configs \<Rightarrow> nat \<Rightarrow> (registry \<times> change_info) list \<Rightarrow> marks \<Rightarrow> marks \<times> action list" where
  "updates cfg t [] m = (m, [])"
| "updates cfg t ((reg, ci) # rest) m =
     (case onUpdated cfg reg t ci m of
        (m', acts, threw) \<Rightarrow>
          (case updates cfg t rest m' of (m'', later) \<Rightarrow> (m'', acts @ later)))"

definition is_attach :: "action \<Rightarrow> bool" where
  "is_attach a = (case a of BehaveAutoAttachedTab _ _ _ _ \<Rightarrow> True | _ \<Rightarrow> False)"


subsection \<open>The listener of Tabs.onAttached\<close>

text \<open>
  The tabs of every window in their order, and the logical parent of every tab.
\<close>

record tree =
  windows :: "nat \<Rightarrow> nat list"
  parents :: "nat \<Rightarrow> nat option"


fun insertAfter :: "nat \<Rightarrow> nat \<Rightarrow> nat list \<Rightarrow> nat list" where
  "insertAfter anchor x [] = [x]"
| "insertAfter anchor x (y # ys) =
     (if y = anchor then y # x # ys else y # insertAfter anchor x ys)"

text \<open>
  Modelled from the spec: the move primitive behind \<^verbatim>\<open>Tree.moveTabs\<close> (common/tree.js is
  not among the sources). One tab leaves the window it is in and enters the destination
  window right after the anchor.
\<close>

definition moveTab :: "nat \<Rightarrow> nat \<Rightarrow> nat \<Rightarrow> tree \<Rightarrow> tree" where
  "moveTab d dest anchor tr =
     tr\<lparr>windows := (\<lambda>w. if w = dest then insertAfter anchor d (removeAll d (windows tr w))
                          else removeAll d (windows tr w))\<rparr>"





section \<open>Notions used in the statements\<close>

text \<open>
  What every flush does before it looks at anything: the pending batch is taken and
  emptied, and \<^verbatim>\<open>configs.lastDraggedTabs\<close> is set to \<^verbatim>\<open>null\<close>.
\<close>

definition cleared :: "engine \<Rightarrow> engine" where
  "cleared e = e\<lparr>mCreatedBookmarks := [], lastDraggedTabs := None\<rparr>"

text \<open>The digest of the URLs of the pending batch, in arrival order.\<close>

definition batch_digest :: "env \<Rightarrow> engine \<Rightarrow> string" where
  "batch_digest h e = sha1sum h (join_lines (map url_text (mCreatedBookmarks e)))"

text \<open>Two engines that differ at most in the log of requests.\<close>

definition logs_only :: "engine \<Rightarrow> engine \<Rightarrow> bool" where
  "logs_only e e' = (e' = e\<lparr>issued := issued e'\<rparr>)"

text \<open>
  The guards of \<^verbatim>\<open>tryGroupCreatedBookmarks\<close> as the code tests them: the digest is that
  of the drag record, the batch has two bookmarks or more, they have one parent, and the
  store's list of that parent's children has another length than the batch.
\<close>

definition guards_hold :: "env \<Rightarrow> engine \<Rightarrow> bool" where
  "guards_hold h e =
     ((case lastDraggedTabs e of None \<Rightarrow> False | Some r \<Rightarrow> batch_digest h e = urlsDigest r) \<and>
      2 \<le> length (mCreatedBookmarks e) \<and>
      list_all (\<lambda>b. bm_parentId b = bm_parentId (hd (mCreatedBookmarks e))) (mCreatedBookmarks e) \<and>
      (case getChildren h (bm_parentId (hd (mCreatedBookmarks e))) of
         Rejected \<Rightarrow> False
       | Resolved allChildren \<Rightarrow> length allChildren \<noteq> length (mCreatedBookmarks e)))"

subsection \<open>A drop of three tabs on the bookmarks toolbar\<close>

definition tabA :: tab where
  "tabA = \<lparr>tab_id = 1, tab_title = ''A'', tab_url = ''http://a.example/'',
            tab_level = Some 0, tab_isGroupTab = False\<rparr>"

definition tabB :: tab where
  "tabB = \<lparr>tab_id = 2, tab_title = ''B'', tab_url = ''http://b.example/'',
            tab_level = Some 1, tab_isGroupTab = False\<rparr>"

definition tabC :: tab where
  "tabC = \<lparr>tab_id = 3, tab_title = ''C'', tab_url = ''http://c.example/'',
            tab_level = Some 1, tab_isGroupTab = False\<rparr>"

definition bmA :: bookmark where
  "bmA = \<lparr>bm_id = ''a'', bm_parentId = ''toolbar'', bm_title = ''A'',
           bm_url = Some ''http://a.example/'', bm_index = 1\<rparr>"

definition bmB :: bookmark where
  "bmB = \<lparr>bm_id = ''b'', bm_parentId = ''toolbar'', bm_title = ''B'',
           bm_url = Some ''http://b.example/'', bm_index = 2\<rparr>"

definition bmC :: bookmark where
  "bmC = \<lparr>bm_id = ''c'', bm_parentId = ''toolbar'', bm_title = ''C'',
           bm_url = Some ''http://c.example/'', bm_index = 3\<rparr>"

definition old1 :: bookmark where
  "old1 = \<lparr>bm_id = ''x'', bm_parentId = ''toolbar'', bm_title = ''X'',
            bm_url = Some ''http://x.example/'', bm_index = 0\<rparr>"

definition old2 :: bookmark where
  "old2 = \<lparr>bm_id = ''y'', bm_parentId = ''toolbar'', bm_title = ''Y'',
            bm_url = Some ''http://y.example/'', bm_index = 4\<rparr>"

definition lookup_tab :: "tab list \<Rightarrow> nat \<Rightarrow> tab option" where
  "lookup_tab ts i = find (\<lambda>t. tab_id t = i) ts"

text \<open>
  A store that holds the three new bookmarks between two older ones and accepts every
  request; the digest is taken to be the text itself.
\<close>

definition demo_env :: env where
  "demo_env =
     \<lparr>sha1sum = (\<lambda>s. s),
      getChildren = (\<lambda>p. Resolved [old1, bmA, bmB, bmC, old2]),
      create = (\<lambda>r. Resolved (Some ''folder'')),
      move = (\<lambda>i p n. True),
      Tab_get = lookup_tab [tabA, tabB, tabC],
      bookmarks_get = (\<lambda>i. Resolved []),
      showInPopup = None,
      defaultBookmarkParentId = ''unfiled'',
      bookmarkTreeFolderName = tab_title,
      isGranted = True\<rparr>"

definition demo_drag :: dragged where
  "demo_drag =
     \<lparr>tabIds = [1, 2, 3],
      urlsDigest = join_lines [''http://a.example/'', ''http://b.example/'', ''http://c.example/'']\<rparr>"

definition demo_engine :: engine where
  "demo_engine = init\<lparr>mCreatedBookmarks := [bmA, bmB, bmC], lastDraggedTabs := Some demo_drag\<rparr>"

text \<open>The same drop with a group tab at the head of the dragged tree.\<close>

definition group_env :: env where
  "group_env = demo_env\<lparr>Tab_get := lookup_tab [tabA\<lparr>tab_isGroupTab := True\<rparr>, tabB, tabC]\<rparr>"

text \<open>
  Two tabs dropped into a folder of their own, one of the two bookmarks removed again
  before the debounce timer fires: the store lists one child.
\<close>

definition short_env :: env where
  "short_env = demo_env\<lparr>getChildren := (\<lambda>p. Resolved [bmA])\<rparr>"

definition short_engine :: engine where
  "short_engine =
     init\<lparr>mCreatedBookmarks := [bmA, bmB],
          lastDraggedTabs := Some \<lparr>tabIds = [1, 2],
            urlsDigest = join_lines [''http://a.example/'', ''http://b.example/'']\<rparr>\<rparr>"

text \<open>A batch of one bookmark whose digest is that of the drag record.\<close>

definition single_engine :: engine where
  "single_engine =
     init\<lparr>mCreatedBookmarks := [bmA],
          lastDraggedTabs := Some \<lparr>tabIds = [1], urlsDigest = ''http://a.example/''\<rparr>\<rparr>"

text \<open>The drop of three tabs, met by the record of an older drag.\<close>

definition stale_drag :: dragged where
  "stale_drag = \<lparr>tabIds = [7], urlsDigest = ''http://other.example/''\<rparr>"

definition stale_engine :: engine where
  "stale_engine = demo_engine\<lparr>lastDraggedTabs := Some stale_drag\<rparr>"

text \<open>Bookmarks created while no drag was ever recorded.\<close>

definition norecord_engine :: engine where
  "norecord_engine = init\<lparr>mCreatedBookmarks := [bmA, bmB]\<rparr>"

subsection \<open>The counter and the timers\<close>

text \<open>The amount the pending \<^verbatim>\<open>wait(150)\<close> callbacks will take off the counter.\<close>

definition amount :: "timer \<Rightarrow> int" where
  "amount t = (case timer_cb t of Decrement k \<Rightarrow> k | Flush \<Rightarrow> 0)"

definition pending :: "timer list \<Rightarrow> int" where
  "pending ts = sum_list (map amount ts)"

text \<open>
  What holds of the module between any two events: timer ids are fresh and distinct,
  no callback adds to the counter, the counter covers what the pending callbacks will
  take off, and the debounce timers alive are exactly the one \<^verbatim>\<open>reserved\<close> names.
\<close>

definition engine_inv :: "engine \<Rightarrow> bool" where
  "engine_inv e =
     (distinct (map timer_id (timers e)) \<and>
      list_all (\<lambda>t. timer_id t < nextTimer e \<and> 0 \<le> amount t) (timers e) \<and>
      pending (timers e) \<le> mCreatingCount e \<and>
      map timer_id (filter is_flush (timers e)) = (case reserved e of None \<Rightarrow> [] | Some i \<Rightarrow> [i]))"

text \<open>
  The ways a call can leave the counter and the timers: untouched; the counter raised
  by \<open>k\<close> and nothing scheduled (the call ended in an error in between); or the counter
  raised by \<open>k\<close> and a callback scheduled that takes \<open>k\<close> off again.
\<close>

definition counts :: "int \<Rightarrow> engine \<Rightarrow> engine \<Rightarrow> bool" where
  "counts k e e' =
     (reserved e' = reserved e \<and> clock e' = clock e \<and>
      (mCreatingCount e' = mCreatingCount e \<and> timers e' = timers e \<and> nextTimer e' = nextTimer e \<or>
       mCreatingCount e' = mCreatingCount e + k \<and> timers e' = timers e \<and> nextTimer e' = nextTimer e \<or>
       mCreatingCount e' = mCreatingCount e + k \<and>
         timers e' = timers e @ [\<lparr>timer_id = nextTimer e, timer_due = clock e + 150,
                                    timer_cb = Decrement k\<rparr>] \<and>
         nextTimer e' = nextTimer e + 1))"

text \<open>
  A drag, then two bookmark creations one time unit apart, the store granting access and
  no bulk creation under way.
\<close>

definition demo_events :: "event list" where
  "demo_events =
     [DragTabs demo_drag, BookmarkCreated demo_env bmA, Elapse demo_env,
      BookmarkCreated demo_env bmB]"

text \<open>
  A store whose folder creation fails: the error handler either swallows the failure,
  so that the awaited expression is \<^verbatim>\<open>undefined\<close>, or throws it again.
\<close>

definition swallowing_env :: env where
  "swallowing_env = demo_env\<lparr>create := (\<lambda>r. Resolved None)\<rparr>"

definition rejecting_env :: env where
  "rejecting_env = demo_env\<lparr>create := (\<lambda>r. Rejected)\<rparr>"

definition plain_options :: options where
  "plain_options = \<lparr>opt_parentId = None, opt_index = None, opt_showDialog = False\<rparr>"

text \<open>
  A store that never fails to create an item, and the events met by such a store.
\<close>

definition reliable :: "env \<Rightarrow> bool" where
  "reliable h = (\<forall>r. \<exists>fid. create h r = Resolved (Some fid))"

fun reliable_event :: "event \<Rightarrow> bool" where
  "reliable_event (BookmarkCreated h b) = True"
| "reliable_event (Elapse h) = reliable h"
| "reliable_event (DragTabs d) = True"
| "reliable_event (CallBookmarkTab h t opts) = reliable h"
| "reliable_event (CallBookmarkTabs h tabs opts) = reliable h"

text \<open>
  The counter is exactly what the pending callbacks will take off: nothing has leaked.
\<close>

definition exact :: "engine \<Rightarrow> bool" where
  "exact e = (engine_inv e \<and> mCreatingCount e = pending (timers e))"

subsection \<open>Notions and sample events for the tab listeners\<close>

text \<open>
  The engine repositioned the tab: one of the calls it made was a call of
  \<^verbatim>\<open>Tree.behaveAutoAttachedTab\<close> or of \<^verbatim>\<open>TabsMove.moveTabAfter\<close> that answered
  \<^verbatim>\<open>true\<close>.
\<close>

definition repositioned :: "registry \<Rightarrow> action list \<Rightarrow> bool" where
  "repositioned reg acts =
     list_ex (\<lambda>a. case a of
                     BehaveAutoAttachedTab _ _ _ _ \<Rightarrow> behaveAutoAttachedTab reg
                   | MoveTabAfter _ _ \<Rightarrow> moveTabAfter reg
                   | _ \<Rightarrow> False) acts"

definition fresh_marks :: marks where
  "fresh_marks = \<lparr>isNewTab = False, possibleOpenerTab = None, originalOpener = None\<rparr>"

definition plain_info :: creation_info where
  "plain_info = \<lparr>duplicatedInternally = False, info_activeTab = None, maybeOrphan = False,
                 positionedBySelf = False\<rparr>"

definition demo_configs :: configs where
  "demo_configs =
     \<lparr>autoAttach = True, autoAttachOnNewTabCommand = 1, autoAttachOnOpenedWithOwner = 2,
      autoAttachSameSiteOrphan = 3, autoGroupNewTabsFromPinned = False,
      insertNewTabFromPinnedTabAtEnd = False, inheritContextualIdentityToNewChildTab = False,
      inheritContextualIdentityToSameSiteOrphan = False, syncParentTabAndOpenerTab = True\<rparr>"

text \<open>
  A window whose active tab is tab 1; tab 2 is the new tab, the last of the window,
  opened by nobody, and both show pages of one site. Every move succeeds, and a tab
  that is attached gets tab 1 as its parent.
\<close>

definition demo_registry :: registry where
  "demo_registry =
     \<lparr>getActiveTab = Some 1,
      getOpenerTab = (\<lambda>t. None),
      getNextTab = (\<lambda>t. None),
      getParentTab = (\<lambda>t. None),
      getParentTabAttached = (\<lambda>t. Some 1),
      getLastTab = Some 2,
      getTabElementById = (\<lambda>i. Some i),
      isNewTabCommandTab = (\<lambda>t. False),
      isPinned = (\<lambda>t. False),
      parentNode = (\<lambda>t. 0),
      windowId = (\<lambda>t. 1),
      url = (\<lambda>t. if t = 1 then ''https://example.org/a'' else ''https://example.org/b''),
      cookieStoreId = (\<lambda>t. ''firefox-default''),
      openedNewTabs = Some [],
      behaveAutoAttachedTab = True,
      moveTabAfter = True\<rparr>"

text \<open>The same window with a tab 3 already placed after the new tab.\<close>

definition followed_registry :: registry where
  "followed_registry = demo_registry\<lparr>getNextTab := (\<lambda>t. Some 3)\<rparr>"

text \<open>The same window, the new tab opened from tab 1.\<close>

definition opened_registry :: registry where
  "opened_registry = demo_registry\<lparr>getOpenerTab := (\<lambda>t. Some 1)\<rparr>"

definition complete :: change_info where
  "complete = \<lparr>ci_url = None, ci_status = Some ''complete'', ci_openerTabId = False\<rparr>"

text \<open>
  The same window with tab 1 in a container of its own, and the option set that lets
  a same-site orphan inherit the container of its parent.
\<close>

definition container_registry :: registry where
  "container_registry =
     demo_registry\<lparr>cookieStoreId :=
       (\<lambda>t. if t = 1 then ''firefox-container-1'' else ''firefox-default'')\<rparr>"

definition inherit_configs :: configs where
  "inherit_configs = demo_configs\<lparr>inheritContextualIdentityToSameSiteOrphan := True\<rparr>"

definition provisional_marks :: marks where
  "provisional_marks = \<lparr>isNewTab = True, possibleOpenerTab = Some 1, originalOpener = None\<rparr>"




section \<open>Properties of the bookmark grouper\<close>

subsection \<open>Which fields a flush can touch\<close>

lemma logs_only_refl: "logs_only e e"
  by (simp add: logs_only_def)

lemma logs_only_trans: "logs_only a b \<Longrightarrow> logs_only b c \<Longrightarrow> logs_only a c"
proof -
  assume ab: "logs_only a b" and bc: "logs_only b c"
  from ab have "b = a\<lparr>issued := issued b\<rparr>" by (simp add: logs_only_def)
  moreover from bc have "c = b\<lparr>issued := issued c\<rparr>" by (simp add: logs_only_def)
  ultimately have "c = (a\<lparr>issued := issued b\<rparr>)\<lparr>issued := issued c\<rparr>" by simp
  then show ?thesis by (simp add: logs_only_def)
qed

lemma logs_only_issue: "logs_only e (issue r e)"
  by (simp add: logs_only_def issue_def)

lemma logs_only_fields:
  "logs_only x y \<Longrightarrow>
     lastDraggedTabs y = lastDraggedTabs x \<and> mCreatedBookmarks y = mCreatedBookmarks x \<and>
     mCreatingCount y = mCreatingCount x \<and> timers y = timers x \<and> reserved y = reserved x \<and>
     clock y = clock x \<and> nextTimer y = nextTimer x"
  by (cases x, cases y) (simp add: logs_only_def)

lemma move_all_logs: "logs_only e (fst (move_all h fid bs n e))"
proof (induction bs arbitrary: n e)
  case Nil
  show ?case by (simp add: logs_only_refl)
next
  case (Cons b bs)
  show ?case
    using Cons.IH [of "issue (Move (bm_id b) fid n) e" "Suc n"]
      logs_only_issue [of e "Move (bm_id b) fid n"]
    by (auto simp: Let_def intro: logs_only_trans)
qed

lemma save_titles_logs: "logs_only e (fst (save_titles bs ts e))"
proof (induction bs ts e rule: save_titles.induct)
  case (3 b bs t title rest e)
  then show ?case
    using logs_only_issue [of e "Update (bm_id b) title"]
    by (auto intro: logs_only_trans)
qed (simp_all add: logs_only_refl)

lemma retitle_logs: "logs_only e (fst (retitle h d bs e))"
  unfolding retitle_def Let_def
  by (auto split: option.splits list.splits
        intro: logs_only_refl save_titles_logs logs_only_trans [OF logs_only_issue save_titles_logs])

lemma issue_prefix: "prefix (issued e) (issued (issue r e))"
  by (simp add: issue_def)

lemma move_all_prefix: "prefix (issued e) (issued (fst (move_all h fid bs n e)))"
proof (induction bs arbitrary: n e)
  case Nil
  show ?case by simp
next
  case (Cons b bs)
  show ?case
    using Cons.IH [of "issue (Move (bm_id b) fid n) e" "Suc n"]
      issue_prefix [of e "Move (bm_id b) fid n"]
    by (auto simp: Let_def intro: prefix_order.trans)
qed

lemma save_titles_prefix: "prefix (issued e) (issued (fst (save_titles bs ts e)))"
proof (induction bs ts e rule: save_titles.induct)
  case (3 b bs t title rest e)
  then show ?case
    using issue_prefix [of e "Update (bm_id b) title"]
    by (auto intro: prefix_order.trans)
qed simp_all

lemma retitle_prefix: "prefix (issued e) (issued (fst (retitle h d bs e)))"
  unfolding retitle_def Let_def
  by (auto split: option.splits list.splits
        intro: save_titles_prefix prefix_order.trans [OF issue_prefix save_titles_prefix])

lemma group_bookmarks_keeps:
  "lastDraggedTabs (fst (group_bookmarks h d bs f p e)) = lastDraggedTabs e \<and>
   mCreatedBookmarks (fst (group_bookmarks h d bs f p e)) = mCreatedBookmarks e \<and>
   reserved (fst (group_bookmarks h d bs f p e)) = reserved e \<and>
   clock (fst (group_bookmarks h d bs f p e)) = clock e"
proof -
  let ?req = "CreateFolder (bm_title f) (Some (bm_index f)) (Some p)"
  let ?e2 = "issue ?req (e\<lparr>mCreatingCount := mCreatingCount e + 1\<rparr>)"
  let ?e3 = "wait150 1 ?e2"
  have moved: "\<And>fid. logs_only ?e3 (fst (move_all h fid bs 0 ?e3))"
    by (rule move_all_logs)
  have titled: "\<And>fid. logs_only ?e3 (fst (retitle h d bs (fst (move_all h fid bs 0 ?e3))))"
    by (rule logs_only_trans [OF move_all_logs retitle_logs])
  show ?thesis
    using logs_only_fields [OF moved] logs_only_fields [OF titled]
    by (simp add: group_bookmarks_def Let_def issue_def wait150_def
             split: outcome.splits option.splits prod.splits)
       (metis fst_conv)
qed

lemma group_bookmarks_prefix:
  "prefix (issued e @ [CreateFolder (bm_title f) (Some (bm_index f)) (Some p)])
     (issued (fst (group_bookmarks h d bs f p e)))"
proof -
  let ?req = "CreateFolder (bm_title f) (Some (bm_index f)) (Some p)"
  let ?e2 = "issue ?req (e\<lparr>mCreatingCount := mCreatingCount e + 1\<rparr>)"
  let ?e3 = "wait150 1 ?e2"
  have e3: "issued ?e3 = issued e @ [?req]"
    by (simp add: issue_def wait150_def)
  have moved: "\<And>fid. prefix (issued ?e3) (issued (fst (move_all h fid bs 0 ?e3)))"
    by (rule move_all_prefix)
  have titled: "\<And>fid. prefix (issued ?e3) (issued (fst (retitle h d bs (fst (move_all h fid bs 0 ?e3)))))"
    by (rule prefix_order.trans [OF move_all_prefix retitle_prefix])
  show ?thesis
    using moved titled unfolding e3
    by (simp add: group_bookmarks_def Let_def issue_def wait150_def
             split: outcome.splits option.splits prod.splits)
       (metis fst_conv)
qed

subsection \<open>The guards of a flush\<close>

lemma remdups_single:
  "(length (remdups xs) \<le> 1) = list_all (\<lambda>x. x = hd xs) xs"
proof (cases xs)
  case Nil
  then show ?thesis by simp
next
  case (Cons a as)
  have "(length (remdups xs) \<le> 1) = (card (set xs) \<le> Suc 0)"
    by (simp add: length_remdups_card_conv)
  also have "\<dots> = (\<forall>x\<in>set xs. \<forall>y\<in>set xs. x = y)"
    by (simp add: card_le_Suc0_iff_eq)
  also have "\<dots> = (\<forall>x\<in>set xs. x = hd xs)"
  proof -
    have "hd xs \<in> set xs" using Cons by simp
    then show ?thesis by metis
  qed
  finally show ?thesis
    by (simp add: list_all_iff)
qed

lemma same_parent_guard:
  "(\<not> 1 < length (remdups (map bm_parentId bs))) =
     list_all (\<lambda>b. bm_parentId b = bm_parentId (hd bs)) bs"
proof (cases bs)
  case Nil
  then show ?thesis by simp
next
  case (Cons b bs')
  have "(\<not> 1 < length (remdups (map bm_parentId bs))) = (length (remdups (map bm_parentId bs)) \<le> 1)"
    by auto
  also have "\<dots> = list_all (\<lambda>x. x = hd (map bm_parentId bs)) (map bm_parentId bs)"
    by (rule remdups_single)
  also have "\<dots> = list_all (\<lambda>b. bm_parentId b = bm_parentId (hd bs)) bs"
    using Cons by (simp add: list_all_iff)
  finally show ?thesis .
qed

lemma flush_clears:
  "lastDraggedTabs (fst (tryGroupCreatedBookmarks h e)) = None \<and>
   mCreatedBookmarks (fst (tryGroupCreatedBookmarks h e)) = []"
  by (simp add: tryGroupCreatedBookmarks_def Let_def group_bookmarks_keeps
           split: option.splits list.splits outcome.splits)

lemma flush_mismatch:
  "lastDraggedTabs e = Some r \<Longrightarrow> batch_digest h e \<noteq> urlsDigest r \<Longrightarrow>
   tryGroupCreatedBookmarks h e = (cleared e, None)"
  by (simp add: tryGroupCreatedBookmarks_def Let_def batch_digest_def cleared_def)

lemma flush_null:
  "lastDraggedTabs e = None \<Longrightarrow> tryGroupCreatedBookmarks h e = (cleared e, Some TypeError)"
  by (simp add: tryGroupCreatedBookmarks_def Let_def cleared_def)

lemma flush_guard_fails:
  assumes "\<not> guards_hold h e"
  shows "fst (tryGroupCreatedBookmarks h e) = cleared e"
proof (cases "lastDraggedTabs e")
  case None
  then show ?thesis by (simp add: flush_null)
next
  case (Some r)
  let ?B = "mCreatedBookmarks e"
  show ?thesis
  proof (cases "batch_digest h e = urlsDigest r")
    case False
    with Some show ?thesis by (simp add: flush_mismatch)
  next
    case True
    then have digest: "sha1sum h (join_lines (map url_text ?B)) = urlsDigest r"
      by (simp add: batch_digest_def)
    show ?thesis
    proof (cases "length ?B < 2")
      case True
      with Some digest show ?thesis
        by (simp add: tryGroupCreatedBookmarks_def Let_def cleared_def)
    next
      case long: False
      show ?thesis
      proof (cases "1 < length (remdups (map bm_parentId ?B))")
        case True
        with Some digest long show ?thesis
          by (simp add: tryGroupCreatedBookmarks_def Let_def cleared_def)
      next
        case one: False
        then have same: "list_all (\<lambda>b. bm_parentId b = bm_parentId (hd ?B)) ?B"
          by (simp only: same_parent_guard)
        from long obtain first rest where B: "?B = first # rest"
          by (cases ?B) auto
        show ?thesis
        proof (cases "getChildren h (bm_parentId first)")
          case Rejected
          with Some digest long one B show ?thesis
            by (simp add: tryGroupCreatedBookmarks_def Let_def cleared_def)
        next
          case (Resolved cs)
          have "length cs = length ?B"
          proof (rule ccontr)
            assume "length cs \<noteq> length ?B"
            with Some \<open>batch_digest h e = urlsDigest r\<close> long same Resolved B
            have "guards_hold h e"
              by (simp add: guards_hold_def Suc_le_eq)
            with assms show False by simp
          qed
          with Resolved Some digest long one B show ?thesis
            by (simp add: tryGroupCreatedBookmarks_def Let_def cleared_def)
        qed
      qed
    qed
  qed
qed

lemma flush_past_guards:
  assumes "guards_hold h e"
  shows "prefix (issued e @ [CreateFolder (bm_title (hd (mCreatedBookmarks e)))
                    (Some (bm_index (hd (mCreatedBookmarks e))))
                    (Some (bm_parentId (hd (mCreatedBookmarks e))))])
           (issued (fst (tryGroupCreatedBookmarks h e)))"
proof -
  let ?B = "mCreatedBookmarks e"
  from assms obtain r where r: "lastDraggedTabs e = Some r" "batch_digest h e = urlsDigest r"
    by (auto simp: guards_hold_def split: option.splits)
  from assms have long: "2 \<le> length ?B"
    by (simp add: guards_hold_def)
  then obtain first rest where B: "?B = first # rest"
    by (cases ?B) auto
  from assms have "\<not> 1 < length (remdups (map bm_parentId ?B))"
    by (simp only: same_parent_guard guards_hold_def)
  moreover from assms B obtain cs where
    "getChildren h (bm_parentId first) = Resolved cs" "length cs \<noteq> length ?B"
    by (auto simp: guards_hold_def split: outcome.splits)
  ultimately have
    "tryGroupCreatedBookmarks h e =
       group_bookmarks h r ?B first (bm_parentId first) (cleared e)"
    using r long B
    by (auto simp: tryGroupCreatedBookmarks_def Let_def cleared_def batch_digest_def)
  then show ?thesis
    using group_bookmarks_prefix [of "cleared e" first "bm_parentId first" h r ?B] B
    by (simp add: cleared_def)
qed


subsection \<open>Evaluating the sample drops\<close>

lemmas sample_defs =
  tabA_def tabB_def tabC_def bmA_def bmB_def bmC_def old1_def old2_def lookup_tab_def
  demo_env_def demo_drag_def demo_engine_def init_def

lemmas flush_defs =
  tryGroupCreatedBookmarks_def group_bookmarks_def retitle_def getTitlesWithTreeStructure_def
  title_for_def level_of_def strip_marker_def has_marker_def url_text_def issue_def
  wait150_def batch_digest_def cleared_def Let_def

subsection \<open>The claims about a flush\<close>

text \<open>
  C1. Every flush leaves \<^verbatim>\<open>configs.lastDraggedTabs\<close> cleared, whatever the digest; and when
  the digest of the batch's URLs, taken in arrival order, is not the \<^verbatim>\<open>urlsDigest\<close> of
  the record, the flush returns normally having only emptied the batch and cleared the
  record: no request is issued, the counter and the timers are as before.
\<close>

theorem flush_clears_record_mismatch_aborts:
  "lastDraggedTabs (fst (tryGroupCreatedBookmarks h e)) = None \<and>
   (\<forall>r. lastDraggedTabs e = Some r \<and> batch_digest h e \<noteq> urlsDigest r \<longrightarrow>
        tryGroupCreatedBookmarks h e = (cleared e, None) \<and>
        issued (fst (tryGroupCreatedBookmarks h e)) = issued e \<and>
        mCreatingCount (fst (tryGroupCreatedBookmarks h e)) = mCreatingCount e \<and>
        timers (fst (tryGroupCreatedBookmarks h e)) = timers e)"
proof (intro conjI allI impI)
  show "lastDraggedTabs (fst (tryGroupCreatedBookmarks h e)) = None"
    using flush_clears [of h e] by simp
next
  fix r
  assume "lastDraggedTabs e = Some r \<and> batch_digest h e \<noteq> urlsDigest r"
  then have eq: "tryGroupCreatedBookmarks h e = (cleared e, None)"
    by (simp add: flush_mismatch)
  show "tryGroupCreatedBookmarks h e = (cleared e, None)"
    by (rule eq)
  show "issued (fst (tryGroupCreatedBookmarks h e)) = issued e"
    by (simp add: eq cleared_def)
  show "mCreatingCount (fst (tryGroupCreatedBookmarks h e)) = mCreatingCount e"
    by (simp add: eq cleared_def)
  show "timers (fst (tryGroupCreatedBookmarks h e)) = timers e"
    by (simp add: eq cleared_def)
qed

theorem flush_clears_record_mismatch_aborts_witness:
  "lastDraggedTabs stale_engine = Some stale_drag \<and>
   batch_digest demo_env stale_engine \<noteq> urlsDigest stale_drag \<and>
   lastDraggedTabs (fst (tryGroupCreatedBookmarks demo_env stale_engine)) = None \<and>
   tryGroupCreatedBookmarks demo_env stale_engine = (cleared stale_engine, None) \<and>
   issued (fst (tryGroupCreatedBookmarks demo_env stale_engine)) = []"
proof -
  have r: "lastDraggedTabs stale_engine = Some stale_drag"
    by (simp add: stale_engine_def)
  have ne: "batch_digest demo_env stale_engine \<noteq> urlsDigest stale_drag"
    by (simp add: batch_digest_def url_text_def stale_engine_def stale_drag_def sample_defs)
  have log: "issued stale_engine = []"
    by (simp add: stale_engine_def sample_defs)
  from flush_clears_record_mismatch_aborts [of demo_env stale_engine] r ne log
  show ?thesis by auto
qed

text \<open>
  C10. A flush that finds no drag record (\<^verbatim>\<open>configs.lastDraggedTabs\<close> is \<^verbatim>\<open>null\<close>) ends in
  a \<^verbatim>\<open>TypeError\<close>, raised where \<^verbatim>\<open>urlsDigest\<close> is read. By then the pending batch has been
  emptied and the record slot written; no request has been issued, and nothing else has
  changed.
\<close>

theorem flush_without_record_raises:
  assumes "lastDraggedTabs e = None"
  shows "tryGroupCreatedBookmarks h e = (cleared e, Some TypeError) \<and>
         mCreatedBookmarks (fst (tryGroupCreatedBookmarks h e)) = [] \<and>
         lastDraggedTabs (fst (tryGroupCreatedBookmarks h e)) = None \<and>
         issued (fst (tryGroupCreatedBookmarks h e)) = issued e"
  using assms flush_null [of e h] by (simp add: cleared_def)

theorem flush_without_record_raises_witness:
  "lastDraggedTabs norecord_engine = None \<and>
   snd (tryGroupCreatedBookmarks demo_env norecord_engine) = Some TypeError \<and>
   mCreatedBookmarks norecord_engine = [bmA, bmB] \<and>
   mCreatedBookmarks (fst (tryGroupCreatedBookmarks demo_env norecord_engine)) = [] \<and>
   issued (fst (tryGroupCreatedBookmarks demo_env norecord_engine)) = []"
proof -
  have none: "lastDraggedTabs norecord_engine = None"
    by (simp add: norecord_engine_def init_def)
  have batch: "mCreatedBookmarks norecord_engine = [bmA, bmB]" "issued norecord_engine = []"
    by (simp_all add: norecord_engine_def init_def)
  from flush_without_record_raises [OF none, of demo_env] none batch
  show ?thesis by (simp add: cleared_def)
qed

text \<open>
  C3, as the code has it. A flush issues a request only if the digest matches, the
  batch holds two bookmarks or more, all of them have one parent, and the number of
  children the store reports for that parent differs from the size of the batch. When
  one of these fails, the flush has done nothing but empty the batch and clear the
  record. (The code tests the two numbers for equality: a parent that lists fewer
  children than the batch has does not stop it.)
\<close>

theorem flush_guard_fails_changes_nothing:
  assumes "\<not> guards_hold h e"
  shows "fst (tryGroupCreatedBookmarks h e) = cleared e \<and>
         issued (fst (tryGroupCreatedBookmarks h e)) = issued e \<and>
         mCreatingCount (fst (tryGroupCreatedBookmarks h e)) = mCreatingCount e"
  using flush_guard_fails [OF assms] by (simp add: cleared_def)

theorem flush_guard_fails_changes_nothing_witness:
  "batch_digest demo_env single_engine = ''http://a.example/'' \<and>
   \<not> guards_hold demo_env single_engine \<and>
   fst (tryGroupCreatedBookmarks demo_env single_engine) = cleared single_engine \<and>
   issued (fst (tryGroupCreatedBookmarks demo_env single_engine)) = []"
proof -
  have g: "\<not> guards_hold demo_env single_engine"
    by (simp add: guards_hold_def single_engine_def sample_defs)
  have d: "batch_digest demo_env single_engine = ''http://a.example/''"
    by (simp add: batch_digest_def url_text_def single_engine_def sample_defs)
  have log: "issued single_engine = []"
    by (simp add: single_engine_def sample_defs)
  from flush_guard_fails_changes_nothing [OF g] g d log
  show ?thesis by (simp add: cleared_def)
qed

text \<open>
  C3 as stated fails: two bookmarks under one parent, the digest matching, and the
  store listing a single child for that parent. The child count does not exceed the
  size of the batch, and the flush creates the folder all the same.
\<close>

theorem child_count_below_batch_counterexample:
  "getChildren short_env ''toolbar'' = Resolved [bmA] \<and>
   map bm_parentId (mCreatedBookmarks short_engine) = [''toolbar'', ''toolbar''] \<and>
   issued (fst (tryGroupCreatedBookmarks short_env short_engine)) =
     [CreateFolder ''A'' (Some 1) (Some ''toolbar''),
      Move ''a'' ''folder'' 0, Move ''b'' ''folder'' 1,
      Update ''b'' ''> B'']"
  by (simp add: flush_defs short_env_def short_engine_def sample_defs)

text \<open>
  C2, as the code has it. The drag record names three tabs, the first at some depth and
  the two others one level below it; the batch holds three bookmarks with the record's
  digest and one parent, for which the store lists more than three children; the store
  accepts the requests; and the first tab is not a group tab, or its title still begins
  with a marker once the prefix is cut off. Then the flush issues, in
  this order: one folder creation under the shared parent, with the first bookmark's
  title and index; the three moves into the new folder at indices 0, 1 and 2, in the
  order of the batch; a title update for the first bookmark only if its tab's title
  began with markers and a space, which are cut off; and for the second and the third
  bookmark an update to one marker, a space and the tab's title. The flush returns normally.
\<close>

theorem flush_groups_three_tabs:
  assumes batch: "mCreatedBookmarks e = [b0, b1, b2]"
    and drag: "lastDraggedTabs e = Some r" "tabIds r = [i0, i1, i2]"
    and tabs: "Tab_get h i0 = Some t0" "Tab_get h i1 = Some t1" "Tab_get h i2 = Some t2"
    and depths: "level_of t1 = level_of t0 + 1" "level_of t2 = level_of t0 + 1"
    and digest: "batch_digest h e = urlsDigest r"
    and parent: "bm_parentId b0 = p" "bm_parentId b1 = p" "bm_parentId b2 = p"
    and siblings: "getChildren h p = Resolved cs" "3 < length cs"
    and folder: "create h (CreateFolder (bm_title b0) (Some (bm_index b0)) (Some p)) = Resolved (Some fid)"
    and moves: "move h (bm_id b0) fid 0" "move h (bm_id b1) fid 1" "move h (bm_id b2) fid 2"
    and plain: "tab_isGroupTab t0 \<longrightarrow> has_marker (strip_marker (tab_title t0))"
  shows "issued (fst (tryGroupCreatedBookmarks h e)) =
           issued e @
           [CreateFolder (bm_title b0) (Some (bm_index b0)) (Some p),
            Move (bm_id b0) fid 0, Move (bm_id b1) fid 1, Move (bm_id b2) fid 2] @
           (if strip_marker (tab_title t0) = tab_title t0 then []
            else [Update (bm_id b0) (strip_marker (tab_title t0))]) @
           [Update (bm_id b1) (''> '' @ tab_title t1),
            Update (bm_id b2) (''> '' @ tab_title t2)] \<and>
         snd (tryGroupCreatedBookmarks h e) = None"
proof -
  have titles: "getTitlesWithTreeStructure [t0, t1, t2] =
                  [strip_marker (tab_title t0), ''> '' @ tab_title t1, ''> '' @ tab_title t2]"
    using depths by (simp add: getTitlesWithTreeStructure_def title_for_def Let_def)
  have tabs3: "those (map (Tab_get h) (tabIds r)) = Some [t0, t1, t2]"
    using drag(2) tabs by simp
  let ?e3 = "wait150 1 (issue (CreateFolder (bm_title b0) (Some (bm_index b0)) (Some p))
                 ((cleared e)\<lparr>mCreatingCount := mCreatingCount (cleared e) + 1\<rparr>))"
  let ?e4 = "issue (Move (bm_id b2) fid 2) (issue (Move (bm_id b1) fid 1)
               (issue (Move (bm_id b0) fid 0) ?e3))"
  have moved: "move_all h fid [b0, b1, b2] 0 ?e3 = (?e4, None)"
    using moves by (simp add: Let_def numeral_2_eq_2)
  have unmarked: "length (filter (\<lambda>title. \<not> has_marker title) (getTitlesWithTreeStructure [t0, t1, t2])) =
                    (if has_marker (strip_marker (tab_title t0)) then 0 else 1)"
    unfolding titles by (simp add: has_marker_def)
  have saved: "retitle h r [b0, b1, b2] ?e4 =
                 save_titles [b0, b1, b2] (zip [t0, t1, t2] (getTitlesWithTreeStructure [t0, t1, t2])) ?e4"
    using plain tabs3 unmarked by (auto simp: retitle_def Let_def)
  have grouped: "group_bookmarks h r [b0, b1, b2] b0 p (cleared e) = retitle h r [b0, b1, b2] ?e4"
    using folder moved by (simp add: group_bookmarks_def Let_def)
  have flush: "tryGroupCreatedBookmarks h e = group_bookmarks h r [b0, b1, b2] b0 p (cleared e)"
    using batch drag(1) digest parent siblings
    by (simp add: tryGroupCreatedBookmarks_def batch_digest_def cleared_def Let_def)
  show ?thesis
    unfolding flush grouped saved titles
    by (simp add: issue_def wait150_def cleared_def)
qed

theorem flush_groups_three_tabs_witness:
  "issued (fst (tryGroupCreatedBookmarks demo_env demo_engine)) =
     [CreateFolder ''A'' (Some 1) (Some ''toolbar''),
      Move ''a'' ''folder'' 0, Move ''b'' ''folder'' 1, Move ''c'' ''folder'' 2,
      Update ''b'' ''> B'', Update ''c'' ''> C''] \<and>
   snd (tryGroupCreatedBookmarks demo_env demo_engine) = None"
proof -
  have batch: "mCreatedBookmarks demo_engine = [bmA, bmB, bmC]"
    and drag: "lastDraggedTabs demo_engine = Some demo_drag" "tabIds demo_drag = [1, 2, 3]"
    and log: "issued demo_engine = []"
    by (simp_all add: sample_defs)
  have tabs: "Tab_get demo_env 1 = Some tabA" "Tab_get demo_env 2 = Some tabB"
      "Tab_get demo_env 3 = Some tabC"
    by (simp_all add: sample_defs)
  have depths: "level_of tabB = level_of tabA + 1" "level_of tabC = level_of tabA + 1"
    by (simp_all add: level_of_def sample_defs)
  have digest: "batch_digest demo_env demo_engine = urlsDigest demo_drag"
    by (simp add: batch_digest_def url_text_def sample_defs)
  have parent: "bm_parentId bmA = ''toolbar''" "bm_parentId bmB = ''toolbar''"
      "bm_parentId bmC = ''toolbar''"
    by (simp_all add: sample_defs)
  have siblings: "getChildren demo_env ''toolbar'' = Resolved [old1, bmA, bmB, bmC, old2]"
      "3 < length [old1, bmA, bmB, bmC, old2]"
    by (simp_all add: sample_defs)
  have folder: "create demo_env (CreateFolder (bm_title bmA) (Some (bm_index bmA)) (Some ''toolbar''))
                  = Resolved (Some ''folder'')"
    by (simp add: sample_defs)
  have moves: "move demo_env (bm_id bmA) ''folder'' 0" "move demo_env (bm_id bmB) ''folder'' 1"
      "move demo_env (bm_id bmC) ''folder'' 2"
    by (simp_all add: sample_defs)
  have plain: "tab_isGroupTab tabA \<longrightarrow> has_marker (strip_marker (tab_title tabA))"
    by (simp add: sample_defs)
  from flush_groups_three_tabs [OF batch drag tabs depths digest parent siblings folder moves plain] log
  show ?thesis
    by (simp add: strip_marker_def sample_defs)
qed

text \<open>
  C2 as stated fails when the first dragged tab is a group tab: depths 0, 1, 1, a
  matching digest, three bookmarks under a parent with two older children. The flush
  removes the first bookmark again and retitles nothing, so the folder holds two
  bookmarks whose titles carry no marker.
\<close>

theorem group_tab_drop_counterexample:
  "map level_of [tabA\<lparr>tab_isGroupTab := True\<rparr>, tabB, tabC] = [0, 1, 1] \<and>
   map (Tab_get group_env) (tabIds demo_drag) = [Some (tabA\<lparr>tab_isGroupTab := True\<rparr>), Some tabB, Some tabC] \<and>
   batch_digest group_env demo_engine = urlsDigest demo_drag \<and>
   getChildren group_env ''toolbar'' = Resolved [old1, bmA, bmB, bmC, old2] \<and>
   issued (fst (tryGroupCreatedBookmarks group_env demo_engine)) =
     [CreateFolder ''A'' (Some 1) (Some ''toolbar''),
      Move ''a'' ''folder'' 0, Move ''b'' ''folder'' 1, Move ''c'' ''folder'' 2,
      Remove ''a'']"
  by (simp add: flush_defs group_env_def sample_defs)


section \<open>Properties of the counter and of the debounce timer\<close>

lemma counts_logs_only: "logs_only b c \<Longrightarrow> counts k a b \<Longrightarrow> counts k a c"
  using logs_only_fields [of b c] by (auto simp: counts_def)

lemma create_children_logs: "logs_only e (create_children fid i ts e)"
proof (induction ts arbitrary: i e)
  case Nil
  show ?case by (simp add: logs_only_refl)
next
  case (Cons a ts)
  obtain t title where a: "a = (t, title)" by (cases a)
  show ?case
    unfolding a
    using Cons.IH [of "issue (CreateBookmark (Some fid) (Some i) title (tab_url t)) e" "i + 1"]
      logs_only_issue [of e "CreateBookmark (Some fid) (Some i) title (tab_url t)"]
    by (auto intro: logs_only_trans)
qed

lemma counts_group_bookmarks: "counts 1 e (fst (group_bookmarks h d bs f p e))"
proof -
  let ?req = "CreateFolder (bm_title f) (Some (bm_index f)) (Some p)"
  let ?e2 = "issue ?req (e\<lparr>mCreatingCount := mCreatingCount e + 1\<rparr>)"
  let ?e3 = "wait150 1 ?e2"
  have c2: "counts 1 e ?e2"
    by (simp add: counts_def issue_def)
  have c3: "counts 1 e ?e3"
    by (simp add: counts_def issue_def wait150_def)
  have moved: "\<And>fid. counts 1 e (fst (move_all h fid bs 0 ?e3))"
    by (rule counts_logs_only [OF move_all_logs c3])
  have titled: "\<And>fid. counts 1 e (fst (retitle h d bs (fst (move_all h fid bs 0 ?e3))))"
    by (rule counts_logs_only [OF retitle_logs moved])
  show ?thesis
  proof (cases "create h ?req")
    case Rejected
    with c2 show ?thesis by (simp add: group_bookmarks_def Let_def)
  next
    case (Resolved folder)
    show ?thesis
    proof (cases folder)
      case None
      with Resolved c3 show ?thesis by (simp add: group_bookmarks_def Let_def)
    next
      case (Some fid)
      obtain e4 r where m: "move_all h fid bs 0 ?e3 = (e4, r)"
        by (cases "move_all h fid bs 0 ?e3")
      show ?thesis
        using Resolved Some m moved [of fid] titled [of fid]
        by (cases r) (simp_all add: group_bookmarks_def Let_def)
    qed
  qed
qed

lemma counts_cleared: "counts k (cleared e) e' \<Longrightarrow> counts k e e'"
  by (simp add: counts_def cleared_def)

lemma counts_refl: "counts k e e"
  by (simp add: counts_def)

lemma counts_flush: "counts 1 e (fst (tryGroupCreatedBookmarks h e))"
proof (cases "guards_hold h e")
  case False
  then have "fst (tryGroupCreatedBookmarks h e) = cleared e"
    by (rule flush_guard_fails)
  then show ?thesis by (simp add: counts_def cleared_def)
next
  case True
  let ?B = "mCreatedBookmarks e"
  from True obtain r where r: "lastDraggedTabs e = Some r" "batch_digest h e = urlsDigest r"
    by (auto simp: guards_hold_def split: option.splits)
  from True have long: "2 \<le> length ?B"
    by (simp add: guards_hold_def)
  then obtain first rest where B: "?B = first # rest"
    by (cases ?B) auto
  from True have "\<not> 1 < length (remdups (map bm_parentId ?B))"
    by (simp only: same_parent_guard guards_hold_def)
  moreover from True B obtain cs where
    "getChildren h (bm_parentId first) = Resolved cs" "length cs \<noteq> length ?B"
    by (auto simp: guards_hold_def split: outcome.splits)
  ultimately have
    "tryGroupCreatedBookmarks h e =
       group_bookmarks h r ?B first (bm_parentId first) (cleared e)"
    using r long B
    by (auto simp: tryGroupCreatedBookmarks_def Let_def cleared_def batch_digest_def)
  then show ?thesis
    using counts_group_bookmarks [of "cleared e" h r ?B first "bm_parentId first"]
    by (simp add: counts_cleared)
qed

lemma counts_bookmarkTab: "counts 1 e (fst (bookmarkTab h t opts e))"
  by (auto simp: bookmarkTab_def Let_def counts_def issue_def wait150_def
        split: option.splits outcome.splits)

lemma counts_bookmarkTabs:
  "counts (int (length tabs) + 1) e (fst (bookmarkTabs h tabs opts e))"
proof (cases "isGranted h")
  case False
  then show ?thesis by (simp add: bookmarkTabs_def counts_refl)
next
  case granted: True
  show ?thesis
  proof (cases tabs)
    case Nil
    with granted show ?thesis by (simp add: bookmarkTabs_def counts_refl)
  next
    case (Cons t0 ts)
    let ?k = "int (length tabs) + 1"
    let ?parent = "if truthy (opt_parentId opts) then getItemById h (opt_parentId opts)
                   else getItemById h (Some (defaultBookmarkParentId h))"
    let ?index = "if truthy (opt_parentId opts) then opt_index opts else None"
    let ?shown = "if opt_showDialog opts then showInPopup h
                  else Some \<lparr>dv_title = bookmarkTreeFolderName h t0, dv_url = [],
                             dv_parentId = map_option bm_id ?parent\<rparr>"
    show ?thesis
    proof (cases ?shown)
      case None
      with granted Cons show ?thesis
        by (simp add: bookmarkTabs_def Let_def counts_refl)
    next
      case (Some v)
      let ?req = "CreateFolder (dv_title v) ?index (dv_parentId v)"
      let ?e2 = "issue ?req (e\<lparr>mCreatingCount := mCreatingCount e + ?k\<rparr>)"
      have c2: "counts ?k e ?e2"
        by (simp add: counts_def issue_def)
      have unfolded: "bookmarkTabs h tabs opts e =
          (case create h ?req of
             Rejected \<Rightarrow> (?e2, Inl HostError)
           | Resolved None \<Rightarrow> (?e2, Inl TypeError)
           | Resolved (Some fid) \<Rightarrow>
               (wait150 ?k (create_children fid 0 (zip tabs (getTitlesWithTreeStructure tabs)) ?e2),
                Inr (Some fid)))"
        using granted Cons Some
        by (simp add: bookmarkTabs_def Let_def split: outcome.splits option.splits)
      show ?thesis
      proof (cases "create h ?req")
        case Rejected
        with c2 show ?thesis unfolding unfolded by simp
      next
        case (Resolved folder)
        show ?thesis
        proof (cases folder)
          case None
          with Resolved c2 show ?thesis unfolding unfolded by simp
        next
          case (Some fid)
          let ?e3 = "create_children fid 0 (zip tabs (getTitlesWithTreeStructure tabs)) ?e2"
          have "logs_only ?e2 ?e3" by (rule create_children_logs)
          from logs_only_fields [OF this]
          have "counts ?k e (wait150 ?k ?e3)"
            by (simp add: counts_def wait150_def issue_def)
          with Resolved Some show ?thesis unfolding unfolded by simp
        qed
      qed
    qed
  qed
qed

subsection \<open>Timers\<close>

lemma filter_swap: "filter P (filter Q xs) = filter Q (filter P xs)"
  by (induction xs) auto

lemma pending_append: "pending (ts @ us) = pending ts + pending us"
  by (simp add: pending_def)

lemma pending_nonneg: "list_all (\<lambda>t. 0 \<le> amount t) ts \<Longrightarrow> 0 \<le> pending ts"
  by (induction ts) (simp_all add: pending_def)

lemma pending_filter_le:
  "list_all (\<lambda>t. 0 \<le> amount t) ts \<Longrightarrow> pending (filter P ts) \<le> pending ts"
  by (induction ts) (auto simp: pending_def)

lemma pending_remove:
  "distinct ts \<Longrightarrow> d \<in> set ts \<Longrightarrow> pending (filter (\<lambda>u. u \<noteq> d) ts) = pending ts - amount d"
proof (induction ts)
  case Nil
  then show ?case by simp
next
  case (Cons a ts)
  show ?case
  proof (cases "a = d")
    case True
    with Cons.prems have "filter (\<lambda>u. u \<noteq> d) ts = ts"
      by (auto simp: filter_id_conv)
    with True show ?thesis by (simp add: pending_def)
  next
    case False
    with Cons show ?thesis by (simp add: pending_def)
  qed
qed

lemma filter_by_id:
  assumes "distinct (map timer_id ts)" "d \<in> set ts"
  shows "filter (\<lambda>u. timer_id u \<noteq> timer_id d) ts = filter (\<lambda>u. u \<noteq> d) ts"
proof (rule filter_cong [OF refl])
  fix u
  assume "u \<in> set ts"
  with assms have "(timer_id u = timer_id d) = (u = d)"
    by (meson distinct_map inj_on_eq_iff)
  then show "(timer_id u \<noteq> timer_id d) = (u \<noteq> d)" by simp
qed

lemma engine_inv_counter: "engine_inv e \<Longrightarrow> 0 \<le> mCreatingCount e"
proof -
  assume inv: "engine_inv e"
  then have "list_all (\<lambda>t. 0 \<le> amount t) (timers e)"
    by (simp add: engine_inv_def list_all_iff)
  then have "0 \<le> pending (timers e)"
    by (rule pending_nonneg)
  with inv show ?thesis by (simp add: engine_inv_def)
qed

lemma engine_inv_counts:
  assumes inv: "engine_inv e" and k: "0 \<le> k" and c: "counts k e e'"
  shows "engine_inv e'"
proof -
  from c have r: "reserved e' = reserved e"
    by (simp add: counts_def)
  from c consider
      (same) "mCreatingCount e' = mCreatingCount e" "timers e' = timers e" "nextTimer e' = nextTimer e"
    | (leak) "mCreatingCount e' = mCreatingCount e + k" "timers e' = timers e" "nextTimer e' = nextTimer e"
    | (sched) "mCreatingCount e' = mCreatingCount e + k"
        "timers e' = timers e @ [\<lparr>timer_id = nextTimer e, timer_due = clock e + 150, timer_cb = Decrement k\<rparr>]"
        "nextTimer e' = nextTimer e + 1"
    by (auto simp: counts_def)
  then show ?thesis
  proof cases
    case same
    with inv r show ?thesis by (simp add: engine_inv_def)
  next
    case leak
    with inv r k show ?thesis by (simp add: engine_inv_def)
  next
    case sched
    from inv have fresh: "nextTimer e \<notin> timer_id ` set (timers e)"
      by (auto simp: engine_inv_def list_all_iff)
    from inv have older: "list_all (\<lambda>t. timer_id t < nextTimer e + 1 \<and> 0 \<le> amount t) (timers e)"
      by (auto simp: engine_inv_def list_all_iff)
    from inv fresh older r k sched show ?thesis
      by (simp add: engine_inv_def pending_append pending_def amount_def is_flush_def)
  qed
qed

lemma engine_inv_reserve:
  assumes inv: "engine_inv e"
  shows "engine_inv (reserveToGroupCreatedBookmarks e)"
proof -
  let ?new = "\<lparr>timer_id = nextTimer e, timer_due = clock e + 250, timer_cb = Flush\<rparr>"
  let ?kept = "case reserved e of Some i \<Rightarrow> filter (\<lambda>t. timer_id t \<noteq> i) (timers e) | None \<Rightarrow> timers e"
  have shape: "timers (reserveToGroupCreatedBookmarks e) = ?kept @ [?new]"
      "nextTimer (reserveToGroupCreatedBookmarks e) = nextTimer e + 1"
      "reserved (reserveToGroupCreatedBookmarks e) = Some (nextTimer e)"
      "mCreatingCount (reserveToGroupCreatedBookmarks e) = mCreatingCount e"
    by (simp_all add: reserveToGroupCreatedBookmarks_def clearTimeout_def Let_def
          split: option.splits)
  have sub: "set ?kept \<subseteq> set (timers e)"
    by (auto split: option.splits)
  have d: "distinct (map timer_id ?kept)"
    using inv by (auto simp: engine_inv_def distinct_map_filter split: option.splits)
  have fresh: "nextTimer e \<notin> timer_id ` set ?kept"
    using inv sub by (auto simp: engine_inv_def list_all_iff)
  have older: "list_all (\<lambda>t. timer_id t < nextTimer e + 1 \<and> 0 \<le> amount t) ?kept"
  proof -
    from inv have "\<forall>t\<in>set (timers e). timer_id t < nextTimer e \<and> 0 \<le> amount t"
      by (simp add: engine_inv_def list_all_iff)
    with sub have "\<forall>t\<in>set ?kept. timer_id t < nextTimer e \<and> 0 \<le> amount t"
      by blast
    then show ?thesis by (auto simp: list_all_iff)
  qed
  have less: "pending ?kept \<le> pending (timers e)"
    using inv by (auto simp: engine_inv_def list_all_iff intro: pending_filter_le split: option.splits)
  have noflush: "filter is_flush ?kept = []"
  proof (cases "reserved e")
    case None
    with inv show ?thesis by (simp add: engine_inv_def)
  next
    case (Some i)
    with inv have one: "map timer_id (filter is_flush (timers e)) = [i]"
      by (simp add: engine_inv_def)
    have "filter is_flush (filter (\<lambda>t. timer_id t \<noteq> i) (timers e)) =
          filter (\<lambda>t. timer_id t \<noteq> i) (filter is_flush (timers e))"
      by (rule filter_swap)
    also have "\<dots> = []"
    proof -
      from one have "\<forall>t\<in>set (filter is_flush (timers e)). timer_id t = i"
        by (metis (no_types, lifting) imageI list.set_map list.simps(15) empty_set singletonD)
      then show ?thesis by (simp add: filter_empty_conv)
    qed
    finally show ?thesis using Some by simp
  qed
  from inv d fresh older less noflush show ?thesis
    unfolding engine_inv_def shape
    by (simp add: pending_append pending_def amount_def is_flush_def)
qed

lemma engine_inv_onBookmarksCreated:
  "engine_inv e \<Longrightarrow> engine_inv (onBookmarksCreated h b e)"
proof -
  assume inv: "engine_inv e"
  then have "engine_inv (e\<lparr>mCreatedBookmarks := mCreatedBookmarks e @ [b]\<rparr>)"
    by (simp add: engine_inv_def)
  then have "engine_inv (reserveToGroupCreatedBookmarks (e\<lparr>mCreatedBookmarks := mCreatedBookmarks e @ [b]\<rparr>))"
    by (rule engine_inv_reserve)
  with inv show ?thesis by (simp add: onBookmarksCreated_def)
qed

lemma counts_timers_mono: "counts k e e' \<Longrightarrow> set (timers e) \<subseteq> set (timers e')"
  by (auto simp: counts_def)

lemma fire_shape:
  assumes inv: "engine_inv e" and d: "d \<in> set (timers e)"
  shows "fire h d e =
     (let e1 = e\<lparr>timers := filter (\<lambda>u. u \<noteq> d) (timers e)\<rparr>
      in case timer_cb d of
           Decrement k \<Rightarrow> e1\<lparr>mCreatingCount := mCreatingCount e1 - k\<rparr>
         | Flush \<Rightarrow> fst (tryGroupCreatedBookmarks h (e1\<lparr>reserved := None\<rparr>)))"
proof -
  from inv have "distinct (map timer_id (timers e))"
    by (simp add: engine_inv_def)
  from filter_by_id [OF this d] show ?thesis
    by (simp add: fire_def)
qed

lemma engine_inv_fire:
  assumes inv: "engine_inv e" and d: "d \<in> set (timers e)"
  shows "engine_inv (fire h d e)"
proof -
  let ?ts = "timers e"
  let ?rest = "filter (\<lambda>u. u \<noteq> d) ?ts"
  from inv have ids: "distinct (map timer_id ?ts)"
    and bounds: "list_all (\<lambda>t. timer_id t < nextTimer e \<and> 0 \<le> amount t) ?ts"
    and covered: "pending ?ts \<le> mCreatingCount e"
    and flushes: "map timer_id (filter is_flush ?ts) = (case reserved e of None \<Rightarrow> [] | Some i \<Rightarrow> [i])"
    by (simp_all add: engine_inv_def)
  from ids have dist: "distinct ?ts"
    by (simp add: distinct_map)
  have ids': "distinct (map timer_id ?rest)"
    using ids by (rule distinct_map_filter)
  have bounds': "list_all (\<lambda>t. timer_id t < nextTimer e \<and> 0 \<le> amount t) ?rest"
    using bounds by (auto simp: list_all_iff)
  have pend: "pending ?rest = pending ?ts - amount d"
    using dist d by (rule pending_remove)
  show ?thesis
  proof (cases "timer_cb d")
    case (Decrement k)
    then have amt: "amount d = k"
      by (simp add: amount_def)
    have nf: "\<not> is_flush d"
      using Decrement by (simp add: is_flush_def)
    have "filter is_flush ?rest = filter (\<lambda>u. u \<noteq> d \<and> is_flush u) ?ts"
      by simp
    also have "\<dots> = filter is_flush ?ts"
      by (rule filter_cong) (use nf in auto)
    finally have fl: "filter is_flush ?rest = filter is_flush ?ts" .
    have "fire h d e = e\<lparr>timers := ?rest, mCreatingCount := mCreatingCount e - k\<rparr>"
      using fire_shape [OF inv d, of h] Decrement by (simp add: Let_def)
    with ids' bounds' pend amt covered flushes fl show ?thesis
      by (simp add: engine_inv_def)
  next
    case Flush
    then have amt: "amount d = 0"
      by (simp add: amount_def)
    from Flush d have mem: "d \<in> set (filter is_flush ?ts)"
      by (simp add: is_flush_def)
    then have "filter is_flush ?ts \<noteq> []"
      by (metis empty_iff empty_set)
    with flushes obtain i where "map timer_id (filter is_flush ?ts) = [i]"
      by (cases "reserved e") auto
    then obtain x where "filter is_flush ?ts = [x]"
      by (cases "filter is_flush ?ts") auto
    with mem have single: "filter is_flush ?ts = [d]"
      by simp
    have "filter is_flush ?rest = filter (\<lambda>u. u \<noteq> d) (filter is_flush ?ts)"
      by (rule filter_swap)
    with single have fl: "filter is_flush ?rest = []"
      by simp
    let ?e2 = "e\<lparr>timers := ?rest, reserved := None\<rparr>"
    have inv2: "engine_inv ?e2"
      using ids' bounds' pend amt covered fl by (simp add: engine_inv_def)
    have "fire h d e = fst (tryGroupCreatedBookmarks h ?e2)"
      using fire_shape [OF inv d, of h] Flush by (simp add: Let_def)
    moreover have "engine_inv (fst (tryGroupCreatedBookmarks h ?e2))"
      by (rule engine_inv_counts [OF inv2 _ counts_flush]) simp
    ultimately show ?thesis by simp
  qed
qed

lemma fire_keeps:
  assumes inv: "engine_inv e" and d: "d \<in> set (timers e)"
    and t: "t \<in> set (timers e)" "t \<noteq> d"
  shows "t \<in> set (timers (fire h d e))"
proof (cases "timer_cb d")
  case (Decrement k)
  with fire_shape [OF inv d, of h] t show ?thesis
    by (simp add: Let_def)
next
  case Flush
  let ?e2 = "e\<lparr>timers := filter (\<lambda>u. u \<noteq> d) (timers e), reserved := None\<rparr>"
  have "fire h d e = fst (tryGroupCreatedBookmarks h ?e2)"
    using fire_shape [OF inv d, of h] Flush by (simp add: Let_def)
  moreover have "set (timers ?e2) \<subseteq> set (timers (fst (tryGroupCreatedBookmarks h ?e2)))"
    by (rule counts_timers_mono [OF counts_flush])
  moreover have "t \<in> set (timers ?e2)"
    using t by simp
  ultimately show ?thesis by auto
qed

lemma engine_inv_fold_fire:
  "engine_inv e \<Longrightarrow> distinct ds \<Longrightarrow> set ds \<subseteq> set (timers e) \<Longrightarrow> engine_inv (fold (fire h) ds e)"
proof (induction ds arbitrary: e)
  case Nil
  then show ?case by simp
next
  case (Cons d ds)
  from Cons.prems have d: "d \<in> set (timers e)"
    by simp
  have inv': "engine_inv (fire h d e)"
    using Cons.prems(1) d by (rule engine_inv_fire)
  have "set ds \<subseteq> set (timers (fire h d e))"
  proof
    fix t
    assume "t \<in> set ds"
    with Cons.prems have "t \<in> set (timers e)" "t \<noteq> d"
      by auto
    with Cons.prems(1) d show "t \<in> set (timers (fire h d e))"
      by (rule fire_keeps)
  qed
  with Cons.IH [OF inv'] Cons.prems(2) show ?case
    by simp
qed

lemma engine_inv_elapse: "engine_inv e \<Longrightarrow> engine_inv (elapse h e)"
proof -
  assume inv: "engine_inv e"
  let ?e1 = "e\<lparr>clock := clock e + 1\<rparr>"
  let ?due = "filter (\<lambda>t. timer_due t \<le> clock ?e1) (timers ?e1)"
  from inv have inv1: "engine_inv ?e1"
    by (simp add: engine_inv_def)
  from inv have "distinct (timers e)"
    by (simp add: engine_inv_def distinct_map)
  then have "distinct ?due"
    by simp
  moreover have "set ?due \<subseteq> set (timers ?e1)"
    by auto
  ultimately have "engine_inv (fold (fire h) ?due ?e1)"
    by (rule engine_inv_fold_fire [OF inv1])
  then show ?thesis
    by (simp add: elapse_def Let_def)
qed

lemma engine_inv_step: "engine_inv e \<Longrightarrow> engine_inv (step ev e)"
proof (cases ev)
  case (BookmarkCreated h b)
  assume "engine_inv e"
  with BookmarkCreated show ?thesis by (simp add: engine_inv_onBookmarksCreated)
next
  case (Elapse h)
  assume "engine_inv e"
  with Elapse show ?thesis by (simp add: engine_inv_elapse)
next
  case (DragTabs d)
  assume "engine_inv e"
  with DragTabs show ?thesis by (simp add: engine_inv_def)
next
  case (CallBookmarkTab h t opts)
  assume "engine_inv e"
  then have "engine_inv (fst (bookmarkTab h t opts e))"
    by (rule engine_inv_counts [OF _ _ counts_bookmarkTab]) simp
  with CallBookmarkTab show ?thesis by simp
next
  case (CallBookmarkTabs h tabs opts)
  assume "engine_inv e"
  then have "engine_inv (fst (bookmarkTabs h tabs opts e))"
    by (rule engine_inv_counts [OF _ _ counts_bookmarkTabs]) simp
  with CallBookmarkTabs show ?thesis by simp
qed

lemma engine_inv_run: "engine_inv e \<Longrightarrow> engine_inv (run evs e)"
  by (induction evs arbitrary: e) (simp_all add: run_def engine_inv_step)

lemma engine_inv_init: "engine_inv init"
  by (simp add: engine_inv_def init_def pending_def)


subsection \<open>With a store that never fails, every increment is taken off again\<close>

lemma exact_counts:
  assumes ex: "exact e" and k: "0 \<le> k" and c: "counts k e e'"
    and bal: "timers e' = timers e \<Longrightarrow> mCreatingCount e' = mCreatingCount e"
  shows "exact e'"
proof -
  from ex have inv: "engine_inv e" and eq: "mCreatingCount e = pending (timers e)"
    by (simp_all add: exact_def)
  have inv': "engine_inv e'"
    using inv k c by (rule engine_inv_counts)
  from c consider
      (still) "timers e' = timers e"
    | (sched) "mCreatingCount e' = mCreatingCount e + k"
        "timers e' = timers e @ [\<lparr>timer_id = nextTimer e, timer_due = clock e + 150, timer_cb = Decrement k\<rparr>]"
    by (auto simp: counts_def)
  then have "mCreatingCount e' = pending (timers e')"
  proof cases
    case still
    with bal eq show ?thesis by simp
  next
    case sched
    with eq show ?thesis
      by (simp add: pending_append pending_def amount_def)
  qed
  with inv' show ?thesis by (simp add: exact_def)
qed

lemma group_bookmarks_schedules:
  assumes "reliable h"
  shows "timers (fst (group_bookmarks h d bs f p e)) \<noteq> timers e"
proof -
  let ?req = "CreateFolder (bm_title f) (Some (bm_index f)) (Some p)"
  let ?e3 = "wait150 1 (issue ?req (e\<lparr>mCreatingCount := mCreatingCount e + 1\<rparr>))"
  from assms obtain fid where fid: "create h ?req = Resolved (Some fid)"
    by (auto simp: reliable_def)
  obtain e4 r where m: "move_all h fid bs 0 ?e3 = (e4, r)"
    by (cases "move_all h fid bs 0 ?e3")
  have l4: "logs_only ?e3 e4"
    using move_all_logs [of ?e3 h fid bs 0] m by simp
  have l5: "logs_only ?e3 (fst (retitle h d bs e4))"
    by (rule logs_only_trans [OF l4 retitle_logs])
  have "timers (fst (group_bookmarks h d bs f p e)) = timers ?e3"
    using fid m logs_only_fields [OF l4] logs_only_fields [OF l5]
    by (cases r) (simp_all add: group_bookmarks_def Let_def)
  then show ?thesis
    by (simp add: wait150_def issue_def)
qed

lemma flush_balanced:
  assumes "reliable h" "timers (fst (tryGroupCreatedBookmarks h e)) = timers e"
  shows "mCreatingCount (fst (tryGroupCreatedBookmarks h e)) = mCreatingCount e"
proof (cases "guards_hold h e")
  case False
  then have "fst (tryGroupCreatedBookmarks h e) = cleared e"
    by (rule flush_guard_fails)
  then show ?thesis by (simp add: cleared_def)
next
  case True
  let ?B = "mCreatedBookmarks e"
  from True obtain r where r: "lastDraggedTabs e = Some r" "batch_digest h e = urlsDigest r"
    by (auto simp: guards_hold_def split: option.splits)
  from True have long: "2 \<le> length ?B"
    by (simp add: guards_hold_def)
  then obtain first rest where B: "?B = first # rest"
    by (cases ?B) auto
  from True have "\<not> 1 < length (remdups (map bm_parentId ?B))"
    by (simp only: same_parent_guard guards_hold_def)
  moreover from True B obtain cs where
    "getChildren h (bm_parentId first) = Resolved cs" "length cs \<noteq> length ?B"
    by (auto simp: guards_hold_def split: outcome.splits)
  ultimately have
    "tryGroupCreatedBookmarks h e =
       group_bookmarks h r ?B first (bm_parentId first) (cleared e)"
    using r long B
    by (auto simp: tryGroupCreatedBookmarks_def Let_def cleared_def batch_digest_def)
  with group_bookmarks_schedules [OF assms(1), of r ?B first "bm_parentId first" "cleared e"] assms(2)
  show ?thesis
    by (simp add: cleared_def)
qed

lemma bookmarkTab_balanced:
  assumes "reliable h" "timers (fst (bookmarkTab h t opts e)) = timers e"
  shows "mCreatingCount (fst (bookmarkTab h t opts e)) = mCreatingCount e"
proof -
  from assms(1) have ok: "\<And>r. \<exists>fid. create h r = Resolved (Some fid)"
    by (simp add: reliable_def)
  let ?parent = "getItemById h (if truthy (opt_parentId opts) then opt_parentId opts
                                else Some (defaultBookmarkParentId h))"
  let ?shown = "if opt_showDialog opts then showInPopup h
                else Some \<lparr>dv_title = tab_title t, dv_url = tab_url t,
                           dv_parentId = map_option bm_id ?parent\<rparr>"
  show ?thesis
  proof (cases "isGranted h")
    case False
    then show ?thesis by (simp add: bookmarkTab_def)
  next
    case granted: True
    show ?thesis
    proof (cases ?shown)
      case None
      with granted show ?thesis by (simp add: bookmarkTab_def Let_def)
    next
      case (Some v)
      let ?req = "CreateBookmark (dv_parentId v) None (dv_title v) (dv_url v)"
      from ok [of ?req] obtain fid where "create h ?req = Resolved (Some fid)"
        by blast
      with granted Some have
        "timers (fst (bookmarkTab h t opts e)) \<noteq> timers e"
        by (simp add: bookmarkTab_def Let_def wait150_def issue_def)
      with assms(2) show ?thesis by simp
    qed
  qed
qed

lemma bookmarkTabs_balanced:
  assumes "reliable h" "timers (fst (bookmarkTabs h tabs opts e)) = timers e"
  shows "mCreatingCount (fst (bookmarkTabs h tabs opts e)) = mCreatingCount e"
proof (cases "isGranted h")
  case False
  then show ?thesis by (simp add: bookmarkTabs_def)
next
  case granted: True
  from assms(1) have ok: "\<And>r. \<exists>fid. create h r = Resolved (Some fid)"
    by (simp add: reliable_def)
  show ?thesis
  proof (cases tabs)
    case Nil
    with granted show ?thesis by (simp add: bookmarkTabs_def)
  next
    case (Cons t0 ts)
    let ?k = "int (length tabs) + 1"
    let ?parent = "if truthy (opt_parentId opts) then getItemById h (opt_parentId opts)
                   else getItemById h (Some (defaultBookmarkParentId h))"
    let ?index = "if truthy (opt_parentId opts) then opt_index opts else None"
    let ?shown = "if opt_showDialog opts then showInPopup h
                  else Some \<lparr>dv_title = bookmarkTreeFolderName h t0, dv_url = [],
                             dv_parentId = map_option bm_id ?parent\<rparr>"
    show ?thesis
    proof (cases ?shown)
      case None
      with granted Cons show ?thesis
        by (simp add: bookmarkTabs_def Let_def)
    next
      case (Some v)
      let ?req = "CreateFolder (dv_title v) ?index (dv_parentId v)"
      let ?e2 = "issue ?req (e\<lparr>mCreatingCount := mCreatingCount e + ?k\<rparr>)"
      from ok [of ?req] obtain fid where fid: "create h ?req = Resolved (Some fid)"
        by blast
      let ?e3 = "create_children fid 0 (zip tabs (getTitlesWithTreeStructure tabs)) ?e2"
      have "bookmarkTabs h tabs opts e = (wait150 ?k ?e3, Inr (Some fid))"
        using granted Cons Some fid
        by (simp add: bookmarkTabs_def Let_def split: outcome.splits option.splits)
      moreover have "logs_only ?e2 ?e3"
        by (rule create_children_logs)
      ultimately have "timers (fst (bookmarkTabs h tabs opts e)) \<noteq> timers e"
        using logs_only_fields [of ?e2 ?e3]
        by (simp add: wait150_def issue_def)
      with assms(2) show ?thesis by simp
    qed
  qed
qed

lemma flush_timer_removed:
  assumes inv: "engine_inv e" and d: "d \<in> set (timers e)" and cb: "timer_cb d = Flush"
  shows "engine_inv (e\<lparr>timers := filter (\<lambda>u. u \<noteq> d) (timers e), reserved := None\<rparr>) \<and>
         pending (filter (\<lambda>u. u \<noteq> d) (timers e)) = pending (timers e)"
proof -
  let ?ts = "timers e"
  let ?rest = "filter (\<lambda>u. u \<noteq> d) ?ts"
  from inv have ids: "distinct (map timer_id ?ts)"
    and bounds: "list_all (\<lambda>t. timer_id t < nextTimer e \<and> 0 \<le> amount t) ?ts"
    and covered: "pending ?ts \<le> mCreatingCount e"
    and flushes: "map timer_id (filter is_flush ?ts) = (case reserved e of None \<Rightarrow> [] | Some i \<Rightarrow> [i])"
    by (simp_all add: engine_inv_def)
  from ids have dist: "distinct ?ts"
    by (simp add: distinct_map)
  have ids': "distinct (map timer_id ?rest)"
    using ids by (rule distinct_map_filter)
  have bounds': "list_all (\<lambda>t. timer_id t < nextTimer e \<and> 0 \<le> amount t) ?rest"
    using bounds by (auto simp: list_all_iff)
  have amt: "amount d = 0"
    using cb by (simp add: amount_def)
  have pend: "pending ?rest = pending ?ts"
    using pending_remove [OF dist d] amt by simp
  from cb d have mem: "d \<in> set (filter is_flush ?ts)"
    by (simp add: is_flush_def)
  then have "filter is_flush ?ts \<noteq> []"
    by (metis empty_iff empty_set)
  with flushes obtain i where "map timer_id (filter is_flush ?ts) = [i]"
    by (cases "reserved e") auto
  then obtain x where "filter is_flush ?ts = [x]"
    by (cases "filter is_flush ?ts") auto
  with mem have single: "filter is_flush ?ts = [d]"
    by simp
  have "filter is_flush ?rest = filter (\<lambda>u. u \<noteq> d) (filter is_flush ?ts)"
    by (rule filter_swap)
  with single have fl: "filter is_flush ?rest = []"
    by simp
  from ids' bounds' pend covered fl show ?thesis
    by (simp add: engine_inv_def)
qed

lemma exact_reserve:
  assumes ex: "exact e"
  shows "exact (reserveToGroupCreatedBookmarks e)"
proof -
  from ex have inv: "engine_inv e" and eq: "mCreatingCount e = pending (timers e)"
    by (simp_all add: exact_def)
  let ?new = "\<lparr>timer_id = nextTimer e, timer_due = clock e + 250, timer_cb = Flush\<rparr>"
  let ?kept = "case reserved e of Some i \<Rightarrow> filter (\<lambda>t. timer_id t \<noteq> i) (timers e) | None \<Rightarrow> timers e"
  have shape: "timers (reserveToGroupCreatedBookmarks e) = ?kept @ [?new]"
      "mCreatingCount (reserveToGroupCreatedBookmarks e) = mCreatingCount e"
    by (simp_all add: reserveToGroupCreatedBookmarks_def clearTimeout_def Let_def
          split: option.splits)
  have kept: "pending ?kept = pending (timers e)"
  proof (cases "reserved e")
    case None
    then show ?thesis by simp
  next
    case (Some i)
    with inv have one: "map timer_id (filter is_flush (timers e)) = [i]"
      by (simp add: engine_inv_def)
    then obtain d where d: "filter is_flush (timers e) = [d]" "timer_id d = i"
      by (cases "filter is_flush (timers e)") auto
    then have mem: "d \<in> set (filter is_flush (timers e))"
      by simp
    then have din: "d \<in> set (timers e)" and cb: "timer_cb d = Flush"
      by (simp_all add: is_flush_def)
    from inv have ids: "distinct (map timer_id (timers e))"
      by (simp add: engine_inv_def)
    have "filter (\<lambda>t. timer_id t \<noteq> i) (timers e) = filter (\<lambda>u. u \<noteq> d) (timers e)"
      using filter_by_id [OF ids din] d(2) by simp
    with flush_timer_removed [OF inv din cb] Some show ?thesis
      by simp
  qed
  have "engine_inv (reserveToGroupCreatedBookmarks e)"
    using inv by (rule engine_inv_reserve)
  moreover have "mCreatingCount (reserveToGroupCreatedBookmarks e) =
                 pending (timers (reserveToGroupCreatedBookmarks e))"
    unfolding shape using kept eq by (simp add: pending_append pending_def amount_def)
  ultimately show ?thesis by (simp add: exact_def)
qed

lemma exact_fire:
  assumes ex: "exact e" and d: "d \<in> set (timers e)" and rel: "reliable h"
  shows "exact (fire h d e)"
proof -
  from ex have inv: "engine_inv e" and eq: "mCreatingCount e = pending (timers e)"
    by (simp_all add: exact_def)
  let ?rest = "filter (\<lambda>u. u \<noteq> d) (timers e)"
  have inv': "engine_inv (fire h d e)"
    using inv d by (rule engine_inv_fire)
  show ?thesis
  proof (cases "timer_cb d")
    case (Decrement k)
    from inv have "distinct (timers e)"
      by (simp add: engine_inv_def distinct_map)
    from pending_remove [OF this d] Decrement
    have "pending ?rest = pending (timers e) - k"
      by (simp add: amount_def)
    moreover have "fire h d e = e\<lparr>timers := ?rest, mCreatingCount := mCreatingCount e - k\<rparr>"
      using fire_shape [OF inv d, of h] Decrement by (simp add: Let_def)
    ultimately show ?thesis
      using inv' eq by (simp add: exact_def)
  next
    case Flush
    let ?e2 = "e\<lparr>timers := ?rest, reserved := None\<rparr>"
    from flush_timer_removed [OF inv d Flush] eq have ex2: "exact ?e2"
      by (simp add: exact_def)
    have "fire h d e = fst (tryGroupCreatedBookmarks h ?e2)"
      using fire_shape [OF inv d, of h] Flush by (simp add: Let_def)
    moreover have "exact (fst (tryGroupCreatedBookmarks h ?e2))"
      by (rule exact_counts [OF ex2 _ counts_flush flush_balanced [OF rel]]) simp_all
    ultimately show ?thesis by simp
  qed
qed

lemma exact_fold_fire:
  "exact e \<Longrightarrow> reliable h \<Longrightarrow> distinct ds \<Longrightarrow> set ds \<subseteq> set (timers e) \<Longrightarrow>
   exact (fold (fire h) ds e)"
proof (induction ds arbitrary: e)
  case Nil
  then show ?case by simp
next
  case (Cons d ds)
  from Cons.prems have d: "d \<in> set (timers e)"
    by simp
  from Cons.prems(1) have inv: "engine_inv e"
    by (simp add: exact_def)
  have ex': "exact (fire h d e)"
    using Cons.prems(1) d Cons.prems(2) by (rule exact_fire)
  have "set ds \<subseteq> set (timers (fire h d e))"
  proof
    fix t
    assume "t \<in> set ds"
    with Cons.prems have "t \<in> set (timers e)" "t \<noteq> d"
      by auto
    with inv d show "t \<in> set (timers (fire h d e))"
      by (rule fire_keeps)
  qed
  with Cons.IH [OF ex' Cons.prems(2)] Cons.prems(3) show ?case
    by simp
qed

lemma exact_elapse: "exact e \<Longrightarrow> reliable h \<Longrightarrow> exact (elapse h e)"
proof -
  assume ex: "exact e" and rel: "reliable h"
  let ?e1 = "e\<lparr>clock := clock e + 1\<rparr>"
  let ?due = "filter (\<lambda>t. timer_due t \<le> clock ?e1) (timers ?e1)"
  from ex have ex1: "exact ?e1"
    by (simp add: exact_def engine_inv_def)
  from ex have "distinct (timers e)"
    by (simp add: exact_def engine_inv_def distinct_map)
  then have "distinct ?due"
    by simp
  moreover have "set ?due \<subseteq> set (timers ?e1)"
    by auto
  ultimately have "exact (fold (fire h) ?due ?e1)"
    by (rule exact_fold_fire [OF ex1 rel])
  then show ?thesis
    by (simp add: elapse_def Let_def)
qed

lemma exact_step: "exact e \<Longrightarrow> reliable_event ev \<Longrightarrow> exact (step ev e)"
proof (cases ev)
  case (BookmarkCreated h b)
  assume ex: "exact e"
  then have "exact (e\<lparr>mCreatedBookmarks := mCreatedBookmarks e @ [b]\<rparr>)"
    by (simp add: exact_def engine_inv_def)
  then have "exact (reserveToGroupCreatedBookmarks (e\<lparr>mCreatedBookmarks := mCreatedBookmarks e @ [b]\<rparr>))"
    by (rule exact_reserve)
  with ex BookmarkCreated show ?thesis
    by (simp add: onBookmarksCreated_def)
next
  case (Elapse h)
  assume "exact e" "reliable_event ev"
  with Elapse show ?thesis by (simp add: exact_elapse)
next
  case (DragTabs d)
  assume "exact e"
  with DragTabs show ?thesis by (simp add: exact_def engine_inv_def)
next
  case (CallBookmarkTab h t opts)
  assume ex: "exact e" and "reliable_event ev"
  with CallBookmarkTab have rel: "reliable h" by simp
  have "exact (fst (bookmarkTab h t opts e))"
    by (rule exact_counts [OF ex _ counts_bookmarkTab bookmarkTab_balanced [OF rel]]) simp_all
  with CallBookmarkTab show ?thesis by simp
next
  case (CallBookmarkTabs h tabs opts)
  assume ex: "exact e" and "reliable_event ev"
  with CallBookmarkTabs have rel: "reliable h" by simp
  have "exact (fst (bookmarkTabs h tabs opts e))"
    by (rule exact_counts [OF ex _ counts_bookmarkTabs bookmarkTabs_balanced [OF rel]]) simp_all
  with CallBookmarkTabs show ?thesis by simp
qed

lemma exact_run: "exact e \<Longrightarrow> list_all reliable_event evs \<Longrightarrow> exact (run evs e)"
  by (induction evs arbitrary: e) (simp_all add: run_def exact_step)

lemma counter_returns_to_zero:
  assumes "list_all reliable_event evs"
    and "list_all is_flush (timers (run evs init))"
  shows "mCreatingCount (run evs init) = 0"
proof -
  have "exact init"
    by (simp add: exact_def engine_inv_init) (simp add: init_def pending_def)
  then have "exact (run evs init)"
    using assms(1) by (rule exact_run)
  then have "mCreatingCount (run evs init) = pending (timers (run evs init))"
    by (simp add: exact_def)
  also have "\<dots> = 0"
  proof -
    have "\<And>ts. list_all is_flush ts \<Longrightarrow> pending ts = 0"
    proof -
      fix ts
      show "list_all is_flush ts \<Longrightarrow> pending ts = 0"
        by (induction ts) (simp_all add: pending_def amount_def is_flush_def)
    qed
    with assms(2) show ?thesis by simp
  qed
  finally show ?thesis .
qed


subsection \<open>The claims about the counter and the debounce timer\<close>

lemma counter_never_negative: "0 \<le> mCreatingCount (run evs init)"
  by (rule engine_inv_counter [OF engine_inv_run [OF engine_inv_init]])

lemma flush_timers_reserved:
  assumes "engine_inv e"
  shows "length (filter is_flush (timers e)) \<le> 1"
proof -
  from assms have "map timer_id (filter is_flush (timers e)) =
                     (case reserved e of None \<Rightarrow> [] | Some i \<Rightarrow> [i])"
    by (simp add: engine_inv_def)
  then have "length (map timer_id (filter is_flush (timers e))) \<le> 1"
    by (simp split: option.splits)
  then show ?thesis by simp
qed

lemma reserve_flush_timer:
  assumes inv: "engine_inv e"
  shows "filter is_flush (timers (reserveToGroupCreatedBookmarks e)) =
           [\<lparr>timer_id = nextTimer e, timer_due = clock e + 250, timer_cb = Flush\<rparr>] \<and>
         reserved (reserveToGroupCreatedBookmarks e) = Some (nextTimer e)"
proof -
  let ?new = "\<lparr>timer_id = nextTimer e, timer_due = clock e + 250, timer_cb = Flush\<rparr>"
  let ?kept = "case reserved e of Some i \<Rightarrow> filter (\<lambda>t. timer_id t \<noteq> i) (timers e) | None \<Rightarrow> timers e"
  have shape: "timers (reserveToGroupCreatedBookmarks e) = ?kept @ [?new]"
      "reserved (reserveToGroupCreatedBookmarks e) = Some (nextTimer e)"
    by (simp_all add: reserveToGroupCreatedBookmarks_def clearTimeout_def Let_def
          split: option.splits)
  have "engine_inv (reserveToGroupCreatedBookmarks e)"
    using inv by (rule engine_inv_reserve)
  then have "length (filter is_flush (?kept @ [?new])) \<le> 1"
    using flush_timers_reserved [of "reserveToGroupCreatedBookmarks e"] shape by simp
  then have "filter is_flush ?kept = []"
    by (simp add: is_flush_def)
  then show ?thesis
    unfolding shape by (simp add: is_flush_def)
qed

text \<open>
  C9. In every state the module can reach, a bookmark-creation event appends its
  bookmark to the pending batch exactly when the bookmarks permission is granted and
  \<^verbatim>\<open>mCreatingCount\<close> is zero. An accepted event leaves exactly one debounce timer in the
  host, the one it has just set, due 250 time units later; the timer set before is gone.
  At most one debounce timer is alive before and after the event.
\<close>

theorem created_bookmark_accepted_and_debounced:
  "let e = run evs init; e' = onBookmarksCreated h b e
   in mCreatedBookmarks e' =
        (if isGranted h \<and> mCreatingCount e = 0 then mCreatedBookmarks e @ [b]
         else mCreatedBookmarks e) \<and>
      (isGranted h \<and> mCreatingCount e = 0 \<longrightarrow>
         filter is_flush (timers e') =
           [\<lparr>timer_id = nextTimer e, timer_due = clock e + 250, timer_cb = Flush\<rparr>] \<and>
         reserved e' = Some (nextTimer e)) \<and>
      length (filter is_flush (timers e)) \<le> 1 \<and>
      length (filter is_flush (timers e')) \<le> 1"
proof -
  let ?e = "run evs init"
  let ?e2 = "?e\<lparr>mCreatedBookmarks := mCreatedBookmarks ?e @ [b]\<rparr>"
  have inv: "engine_inv ?e"
    by (rule engine_inv_run [OF engine_inv_init])
  then have inv2: "engine_inv ?e2"
    by (simp add: engine_inv_def)
  have zero: "(\<not> mCreatingCount ?e > 0) = (mCreatingCount ?e = 0)"
    using engine_inv_counter [OF inv] by auto
  have batch: "mCreatedBookmarks (reserveToGroupCreatedBookmarks ?e2) = mCreatedBookmarks ?e @ [b]"
    by (simp add: reserveToGroupCreatedBookmarks_def clearTimeout_def Let_def
          split: option.splits)
  have accepted: "isGranted h \<and> mCreatingCount ?e = 0 \<Longrightarrow>
                  onBookmarksCreated h b ?e = reserveToGroupCreatedBookmarks ?e2"
    by (simp add: onBookmarksCreated_def)
  have refused: "\<not> (isGranted h \<and> mCreatingCount ?e = 0) \<Longrightarrow> onBookmarksCreated h b ?e = ?e"
    using zero by (auto simp: onBookmarksCreated_def)
  have one: "length (filter is_flush (timers ?e)) \<le> 1"
    by (rule flush_timers_reserved [OF inv])
  have one': "length (filter is_flush (timers (onBookmarksCreated h b ?e))) \<le> 1"
    by (rule flush_timers_reserved [OF engine_inv_onBookmarksCreated [OF inv]])
  show ?thesis
  proof (cases "isGranted h \<and> mCreatingCount ?e = 0")
    case True
    with reserve_flush_timer [OF inv2] accepted [OF True] batch one one' show ?thesis
      by (simp add: Let_def)
  next
    case False
    with refused [OF False] one show ?thesis
      by (auto simp: Let_def)
  qed
qed

theorem created_bookmark_accepted_and_debounced_witness:
  "isGranted demo_env \<and> mCreatingCount (run demo_events init) = 0 \<and>
   mCreatedBookmarks (run demo_events init) = [bmA, bmB] \<and>
   timers (run demo_events init) = [\<lparr>timer_id = 2, timer_due = 251, timer_cb = Flush\<rparr>] \<and>
   mCreatedBookmarks (onBookmarksCreated demo_env bmC (run demo_events init)) = [bmA, bmB, bmC] \<and>
   filter is_flush (timers (onBookmarksCreated demo_env bmC (run demo_events init))) =
     [\<lparr>timer_id = 3, timer_due = 251, timer_cb = Flush\<rparr>]"
proof -
  have state: "run demo_events init =
      \<lparr>mCreatingCount = 0, mCreatedBookmarks = [bmA, bmB], reserved = Some 2,
       lastDraggedTabs = Some demo_drag,
       timers = [\<lparr>timer_id = 2, timer_due = 251, timer_cb = Flush\<rparr>],
       clock = 1, nextTimer = 3, issued = []\<rparr>"
    by (simp add: run_def demo_events_def init_def onBookmarksCreated_def
          reserveToGroupCreatedBookmarks_def clearTimeout_def elapse_def Let_def demo_env_def)
  have granted: "isGranted demo_env"
    by (simp add: demo_env_def)
  from created_bookmark_accepted_and_debounced [of demo_events demo_env bmC] granted
  show ?thesis
    by (simp add: Let_def state)
qed

lemma elapse_idle: "timers e = [] \<Longrightarrow> elapse h e = e\<lparr>clock := clock e + 1\<rparr>"
  by (simp add: elapse_def Let_def)

lemma run_idle:
  "timers e = [] \<Longrightarrow> run (replicate n (Elapse h)) e = e\<lparr>clock := clock e + n\<rparr>"
proof (induction n arbitrary: e)
  case 0
  then show ?case by (simp add: run_def)
next
  case (Suc n)
  have "run (replicate (Suc n) (Elapse h)) e = run (replicate n (Elapse h)) (elapse h e)"
    by (simp add: run_def)
  also have "\<dots> = run (replicate n (Elapse h)) (e\<lparr>clock := clock e + 1\<rparr>)"
    using Suc.prems by (simp add: elapse_idle)
  also have "\<dots> = (e\<lparr>clock := clock e + 1\<rparr>)\<lparr>clock := clock (e\<lparr>clock := clock e + 1\<rparr>) + n\<rparr>"
    using Suc.prems by (intro Suc.IH) simp
  finally show ?case by simp
qed

text \<open>
  C8 fails on the code. \<^verbatim>\<open>bookmarkTabs\<close> is called with three tabs and the creation of the
  folder fails. The counter has been raised by four; the function ends in an error
  before it reaches \<^verbatim>\<open>wait(150)\<close>, so no callback is left to take the four off again.
  However much time passes, the counter stays at four, and every bookmark-creation
  event is turned away from then on.
\<close>

theorem failed_folder_creation_leaves_counter:
  "snd (bookmarkTabs swallowing_env [tabA, tabB, tabC] plain_options init) = Inl TypeError \<and>
   snd (bookmarkTabs rejecting_env [tabA, tabB, tabC] plain_options init) = Inl HostError \<and>
   mCreatingCount (run (CallBookmarkTabs swallowing_env [tabA, tabB, tabC] plain_options
                          # replicate n (Elapse demo_env)) init) = 4 \<and>
   mCreatingCount (run (CallBookmarkTabs rejecting_env [tabA, tabB, tabC] plain_options
                          # replicate n (Elapse demo_env)) init) = 4 \<and>
   onBookmarksCreated demo_env bmA
       (run (CallBookmarkTabs swallowing_env [tabA, tabB, tabC] plain_options
               # replicate n (Elapse demo_env)) init) =
     run (CallBookmarkTabs swallowing_env [tabA, tabB, tabC] plain_options
            # replicate n (Elapse demo_env)) init"
proof -
  let ?req = "CreateFolder ''A'' None None"
  let ?e = "init\<lparr>mCreatingCount := 4, issued := [?req]\<rparr>"
  have s: "bookmarkTabs swallowing_env [tabA, tabB, tabC] plain_options init = (?e, Inl TypeError)"
    by (simp add: bookmarkTabs_def getItemById_def truthy_def issue_def Let_def
          swallowing_env_def plain_options_def demo_env_def init_def tabA_def)
  have r: "bookmarkTabs rejecting_env [tabA, tabB, tabC] plain_options init = (?e, Inl HostError)"
    by (simp add: bookmarkTabs_def getItemById_def truthy_def issue_def Let_def
          rejecting_env_def plain_options_def demo_env_def init_def tabA_def)
  have idle: "timers ?e = []"
    by (simp add: init_def)
  have later: "run (replicate n (Elapse demo_env)) ?e = ?e\<lparr>clock := clock ?e + n\<rparr>"
    by (rule run_idle [OF idle])
  have rs: "run (CallBookmarkTabs swallowing_env [tabA, tabB, tabC] plain_options
                   # replicate n (Elapse demo_env)) init = ?e\<lparr>clock := clock ?e + n\<rparr>"
    using later by (simp add: run_def s)
  have rr: "run (CallBookmarkTabs rejecting_env [tabA, tabB, tabC] plain_options
                   # replicate n (Elapse demo_env)) init = ?e\<lparr>clock := clock ?e + n\<rparr>"
    using later by (simp add: run_def r)
  show ?thesis
    unfolding rs rr by (simp add: s r onBookmarksCreated_def)
qed

theorem failed_folder_creation_leaves_counter_witness:
  "mCreatingCount (run (CallBookmarkTabs swallowing_env [tabA, tabB, tabC] plain_options
                          # replicate 150 (Elapse demo_env)) init) = 4 \<and>
   mCreatingCount (run (CallBookmarkTabs rejecting_env [tabA, tabB, tabC] plain_options
                          # replicate 1000 (Elapse demo_env)) init) = 4"
  using failed_folder_creation_leaves_counter [of 150]
    failed_folder_creation_leaves_counter [of 1000]
  by blast


section \<open>Properties of the tab listeners\<close>

lemmas tab_sample_defs =
  fresh_marks_def plain_info_def demo_configs_def demo_registry_def

text \<open>
  C6, as the code has it. A tab is created, not by an internal duplication, with no
  opener, and it is not a new-tab-command tab. The listener makes no call and returns
  \<^verbatim>\<open>true\<close>, so the tab stays a root and is placed by default. On a tab that carried no
  possible opener before, it records \<open>p\<close> as the possible opener exactly when \<open>p\<close> is the
  active tab given with the event (or else the active tab of the window), \<open>p\<close> is not the
  new tab itself, the event is not flagged \<^verbatim>\<open>maybeOrphan\<close>, and no tab follows the new
  tab.
\<close>

theorem orphan_tab_is_root_and_marked:
  assumes "\<not> duplicatedInternally info" "getOpenerTab reg t = None"
    and "\<not> isNewTabCommandTab reg t" "possibleOpenerTab m = None"
  shows "snd (snd (onCreating cfg reg t info m)) = True \<and>
         fst (snd (onCreating cfg reg t info m)) = [] \<and>
         (possibleOpenerTab (fst (onCreating cfg reg t info m)) = Some p) =
           (possibleOpener reg info = Some p \<and> p \<noteq> t \<and> \<not> maybeOrphan info \<and>
            getNextTab reg t = None)"
  using assms by (auto simp: onCreating_def split: option.splits)

theorem orphan_tab_is_root_and_marked_witness:
  "possibleOpener demo_registry plain_info = Some 1 \<and>
   snd (snd (onCreating demo_configs demo_registry 2 plain_info fresh_marks)) = True \<and>
   possibleOpenerTab (fst (onCreating demo_configs demo_registry 2 plain_info fresh_marks)) = Some 1"
proof -
  have a: "\<not> duplicatedInternally plain_info" "getOpenerTab demo_registry 2 = None"
      "\<not> isNewTabCommandTab demo_registry 2" "possibleOpenerTab fresh_marks = None"
    by (simp_all add: tab_sample_defs)
  have b: "possibleOpener demo_registry plain_info = Some 1" "\<not> maybeOrphan plain_info"
      "getNextTab demo_registry 2 = None"
    by (simp_all add: possibleOpener_def tab_sample_defs)
  from orphan_tab_is_root_and_marked [OF a, where cfg = demo_configs and p = 1] b
  show ?thesis by simp
qed

text \<open>
  C6 as stated fails: the window has an active tab, the new tab has no opener and is
  not a new-tab-command tab, but a tab already follows it (or the event is flagged
  \<^verbatim>\<open>maybeOrphan\<close>): no possible opener is recorded.
\<close>

theorem active_tab_not_recorded_counterexample:
  "possibleOpener followed_registry plain_info = Some 1 \<and>
   getOpenerTab followed_registry 2 = None \<and>
   isNewTabCommandTab followed_registry 2 = False \<and>
   possibleOpenerTab (fst (onCreating demo_configs followed_registry 2 plain_info fresh_marks)) = None \<and>
   possibleOpener demo_registry (plain_info\<lparr>maybeOrphan := True\<rparr>) = Some 1 \<and>
   possibleOpenerTab (fst (onCreating demo_configs demo_registry 2
                             (plain_info\<lparr>maybeOrphan := True\<rparr>) fresh_marks)) = None"
  by (simp add: onCreating_def possibleOpener_def followed_registry_def tab_sample_defs)

lemma handleNewTab_attaches_once:
  "filter is_attach (fst (handleNewTabFromActiveTab reg t p b i)) =
     [BehaveAutoAttachedTab t (Some p) b False] \<and>
   snd (handleNewTabFromActiveTab reg t p b i) = behaveAutoAttachedTab reg \<and>
   repositioned reg (fst (handleNewTabFromActiveTab reg t p b i)) = behaveAutoAttachedTab reg \<and>
   fst (handleNewTabFromActiveTab reg t p b i) \<noteq> []"
  by (simp add: handleNewTabFromActiveTab_def Let_def is_attach_def repositioned_def
        split: option.splits)

text \<open>
  C7, as the code has it. Whenever the listener made a call that can move the tab, the
  value it returns is the negation of what that call answered: \<^verbatim>\<open>false\<close> when the
  engine repositioned the tab, \<^verbatim>\<open>true\<close> when it did not. So \<^verbatim>\<open>true\<close> is never returned
  for a tab the engine repositioned. Without such a call the listener returns \<^verbatim>\<open>false\<close>
  only for a new-tab-command tab that was positioned by its creator and for a tab
  opened from a pinned tab while such tabs are grouped automatically; in every other
  case it returns \<^verbatim>\<open>true\<close>.
\<close>

theorem creation_listener_returns_not_moved:
  "case onCreating cfg reg t info m of
     (m', acts, ret) \<Rightarrow>
       (acts \<noteq> [] \<longrightarrow> ret = (\<not> repositioned reg acts)) \<and>
       (repositioned reg acts \<longrightarrow> \<not> ret) \<and>
       (acts = [] \<longrightarrow>
          (\<not> ret) =
            (\<not> duplicatedInternally info \<and>
             (case getOpenerTab reg t of
                None \<Rightarrow> possibleOpener reg info \<noteq> None \<and> \<not> maybeOrphan info \<and>
                        getNextTab reg t = None \<and> isNewTabCommandTab reg t \<and>
                        positionedBySelf info
              | Some opener \<Rightarrow> isPinned reg opener \<and> parentNode reg opener = parentNode reg t \<and>
                        autoGroupNewTabsFromPinned cfg)))"
proof (cases "duplicatedInternally info")
  case True
  then show ?thesis
    by (simp add: onCreating_def repositioned_def)
next
  case False
  show ?thesis
  proof (cases "getOpenerTab reg t")
    case (Some opener)
    with False show ?thesis
      by (auto simp: onCreating_def repositioned_def Let_def)
  next
    case None
    show ?thesis
    proof (cases "possibleOpener reg info")
      case no_active: None
      with False None show ?thesis
        by (simp add: onCreating_def repositioned_def)
    next
      case (Some p)
      obtain acts moved where
        h: "handleNewTabFromActiveTab reg t p (autoAttachOnNewTabCommand cfg)
              (inheritContextualIdentityToNewChildTab cfg) = (acts, moved)"
        by (cases "handleNewTabFromActiveTab reg t p (autoAttachOnNewTabCommand cfg)
              (inheritContextualIdentityToNewChildTab cfg)")
      from handleNewTab_attaches_once [of reg t p "autoAttachOnNewTabCommand cfg"
          "inheritContextualIdentityToNewChildTab cfg"] h
      have "moved = behaveAutoAttachedTab reg" "repositioned reg acts = behaveAutoAttachedTab reg"
          "acts \<noteq> []"
        by simp_all
      with False None Some h show ?thesis
        by (simp add: onCreating_def repositioned_def)
    qed
  qed
qed

theorem creation_listener_returns_not_moved_witness:
  "fst (snd (onCreating demo_configs opened_registry 2 plain_info fresh_marks)) =
     [BehaveAutoAttachedTab 2 (Some 1) 2 False] \<and>
   repositioned opened_registry [BehaveAutoAttachedTab 2 (Some 1) 2 False] \<and>
   snd (snd (onCreating demo_configs opened_registry 2 plain_info fresh_marks)) = False \<and>
   fst (snd (onCreating demo_configs (opened_registry\<lparr>behaveAutoAttachedTab := False\<rparr>) 2
               plain_info fresh_marks)) = [BehaveAutoAttachedTab 2 (Some 1) 2 False] \<and>
   snd (snd (onCreating demo_configs (opened_registry\<lparr>behaveAutoAttachedTab := False\<rparr>) 2
               plain_info fresh_marks)) = True \<and>
   fst (snd (onCreating (demo_configs\<lparr>autoGroupNewTabsFromPinned := True\<rparr>)
               (opened_registry\<lparr>isPinned := (\<lambda>t. True)\<rparr>) 2 plain_info fresh_marks)) = [] \<and>
   snd (snd (onCreating (demo_configs\<lparr>autoGroupNewTabsFromPinned := True\<rparr>)
               (opened_registry\<lparr>isPinned := (\<lambda>t. True)\<rparr>) 2 plain_info fresh_marks)) = False"
proof -
  have acts: "fst (snd (onCreating demo_configs opened_registry 2 plain_info fresh_marks)) =
                [BehaveAutoAttachedTab 2 (Some 1) 2 False]"
      "fst (snd (onCreating demo_configs (opened_registry\<lparr>behaveAutoAttachedTab := False\<rparr>) 2
               plain_info fresh_marks)) = [BehaveAutoAttachedTab 2 (Some 1) 2 False]"
      "fst (snd (onCreating (demo_configs\<lparr>autoGroupNewTabsFromPinned := True\<rparr>)
               (opened_registry\<lparr>isPinned := (\<lambda>t. True)\<rparr>) 2 plain_info fresh_marks)) = []"
    by (simp_all add: onCreating_def opened_registry_def tab_sample_defs Let_def)
  have moved: "repositioned opened_registry [BehaveAutoAttachedTab 2 (Some 1) 2 False]"
      "\<not> repositioned (opened_registry\<lparr>behaveAutoAttachedTab := False\<rparr>)
           [BehaveAutoAttachedTab 2 (Some 1) 2 False]"
    by (simp_all add: repositioned_def opened_registry_def tab_sample_defs)
  have pinned: "\<not> duplicatedInternally plain_info"
      "getOpenerTab (opened_registry\<lparr>isPinned := (\<lambda>t. True)\<rparr>) 2 = Some 1"
      "isPinned (opened_registry\<lparr>isPinned := (\<lambda>t. True)\<rparr>) 1"
      "parentNode (opened_registry\<lparr>isPinned := (\<lambda>t. True)\<rparr>) 1 =
         parentNode (opened_registry\<lparr>isPinned := (\<lambda>t. True)\<rparr>) 2"
      "autoGroupNewTabsFromPinned (demo_configs\<lparr>autoGroupNewTabsFromPinned := True\<rparr>)"
    by (simp_all add: opened_registry_def tab_sample_defs)
  from creation_listener_returns_not_moved
         [where cfg = demo_configs and reg = opened_registry and t = 2 and info = plain_info
            and m = fresh_marks]
       creation_listener_returns_not_moved
         [where cfg = demo_configs and reg = "opened_registry\<lparr>behaveAutoAttachedTab := False\<rparr>"
            and t = 2 and info = plain_info and m = fresh_marks]
       creation_listener_returns_not_moved
         [where cfg = "demo_configs\<lparr>autoGroupNewTabsFromPinned := True\<rparr>"
            and reg = "opened_registry\<lparr>isPinned := (\<lambda>t. True)\<rparr>"
            and t = 2 and info = plain_info and m = fresh_marks]
       acts moved pinned
  show ?thesis
    by (simp add: case_prod_beta)
qed

text \<open>
  C7 as stated fails: the new tab was opened from tab 1, the engine attached it and
  moved it, and the listener returns \<^verbatim>\<open>false\<close>; where nothing was done for a tab (here
  an internal duplication) it returns \<^verbatim>\<open>true\<close>.
\<close>

theorem repositioned_tab_returns_false_counterexample:
  "repositioned opened_registry
     (fst (snd (onCreating demo_configs opened_registry 2 plain_info fresh_marks))) \<and>
   snd (snd (onCreating demo_configs opened_registry 2 plain_info fresh_marks)) = False \<and>
   fst (snd (onCreating demo_configs demo_registry 2
               (plain_info\<lparr>duplicatedInternally := True\<rparr>) fresh_marks)) = [] \<and>
   snd (snd (onCreating demo_configs demo_registry 2
               (plain_info\<lparr>duplicatedInternally := True\<rparr>) fresh_marks)) = True"
  by (simp add: onCreating_def repositioned_def opened_registry_def tab_sample_defs Let_def)

lemma syncOpener_shape:
  "syncOpener cfg reg t ci = [] \<or> (\<exists>p. syncOpener cfg reg t ci = [AttachTabTo t p])"
  by (simp add: syncOpener_def split: option.splits)

lemma syncOpener_no_attach: "filter is_attach (syncOpener cfg reg t ci) = []"
  using syncOpener_shape [of cfg reg t ci] by (auto simp: is_attach_def)

lemma resolveNewTab_cases:
  "(fst (resolveNewTab cfg reg t ci m) = m \<and> \<not> (navigated ci \<and> isNewTab m) \<and>
      fst (snd (resolveNewTab cfg reg t ci m)) = []) \<or>
   (fst (resolveNewTab cfg reg t ci m) = m\<lparr>isNewTab := False, possibleOpenerTab := None\<rparr> \<and>
      navigated ci \<and> isNewTab m \<and>
      length (filter is_attach (fst (snd (resolveNewTab cfg reg t ci m)))) \<le> 1)"
proof (cases "navigated ci \<and> isNewTab m")
  case False
  then show ?thesis by (auto simp: resolveNewTab_def)
next
  case True
  have one: "\<And>p b i. length (filter is_attach (fst (handleNewTabFromActiveTab reg t p b i))) \<le> 1"
    by (simp add: handleNewTab_attaches_once)
  from True one show ?thesis
    by (auto simp: resolveNewTab_def Let_def split: option.splits)
qed

lemma onUpdated_cases:
  "(fst (onUpdated cfg reg t ci m) = m \<and> \<not> (navigated ci \<and> isNewTab m) \<and>
      filter is_attach (fst (snd (onUpdated cfg reg t ci m))) = []) \<or>
   (fst (onUpdated cfg reg t ci m) = m\<lparr>isNewTab := False, possibleOpenerTab := None\<rparr> \<and>
      navigated ci \<and> isNewTab m \<and>
      length (filter is_attach (fst (snd (onUpdated cfg reg t ci m)))) \<le> 1)"
proof -
  obtain m1 acts threw where r: "resolveNewTab cfg reg t ci m = (m1, acts, threw)"
    by (cases "resolveNewTab cfg reg t ci m")
  with resolveNewTab_cases [of cfg reg t ci m] show ?thesis
    by (auto simp: onUpdated_def syncOpener_no_attach)
qed

lemma updates_settled:
  "\<not> isNewTab m \<Longrightarrow> filter is_attach (snd (updates cfg t evs m)) = [] \<and>
     \<not> isNewTab (fst (updates cfg t evs m))"
proof (induction evs arbitrary: m)
  case Nil
  then show ?case by simp
next
  case (Cons ev evs)
  obtain reg ci where ev: "ev = (reg, ci)" by (cases ev)
  obtain m1 acts threw where u: "onUpdated cfg reg t ci m = (m1, acts, threw)"
    by (cases "onUpdated cfg reg t ci m")
  from onUpdated_cases [of cfg reg t ci m] Cons.prems u
  have same: "m1 = m" "filter is_attach acts = []"
    by auto
  obtain m2 later where l: "updates cfg t evs m1 = (m2, later)"
    by (cases "updates cfg t evs m1")
  from Cons.IH [of m1] same Cons.prems l
  have "filter is_attach later = []" "\<not> isNewTab m2"
    by auto
  with same(2) show ?case
    by (simp add: ev u l)
qed

lemma updates_attach_once:
  "length (filter is_attach (snd (updates cfg t evs m))) \<le> 1"
proof (induction evs arbitrary: m)
  case Nil
  show ?case by simp
next
  case (Cons ev evs)
  obtain reg ci where ev: "ev = (reg, ci)" by (cases ev)
  obtain m1 acts threw where u: "onUpdated cfg reg t ci m = (m1, acts, threw)"
    by (cases "onUpdated cfg reg t ci m")
  obtain m2 later where l: "updates cfg t evs m1 = (m2, later)"
    by (cases "updates cfg t evs m1")
  from onUpdated_cases [of cfg reg t ci m] u consider
      (idle) "m1 = m" "filter is_attach acts = []"
    | (resolved) "\<not> isNewTab m1" "length (filter is_attach acts) \<le> 1"
    by auto
  then show ?case
  proof cases
    case idle
    from Cons.IH [of m1] l have "length (filter is_attach later) \<le> 1"
      by simp
    with idle(2) show ?thesis
      by (simp add: ev u l)
  next
    case resolved
    from updates_settled [OF resolved(1), of cfg t evs] l
    have "filter is_attach later = []"
      by simp
    with resolved show ?thesis
      by (simp add: ev u l)
  qed
qed

lemma update_reopens_in_container:
  "onUpdated inherit_configs container_registry 2 complete provisional_marks =
     (\<lparr>isNewTab = False, possibleOpenerTab = None, originalOpener = None\<rparr>,
      [BehaveAutoAttachedTab 2 (Some 1) 3 False, OpenNewTab 1 2 ''firefox-container-1'',
       RemoveTab 2],
      False)"
proof -
  have sites: "site_of ''https://example.org/a'' = Some ''example.org''"
      "site_of ''https://example.org/b'' = Some ''example.org''"
    by (simp_all add: site_of_def word_char_def line_terminator_def Let_def)
  have nav: "navigated complete"
    by (simp add: navigated_def complete_def)
  show ?thesis
    using sites nav
    by (simp add: onUpdated_def resolveNewTab_def syncOpener_def handleNewTabFromActiveTab_def
          Let_def complete_def provisional_marks_def container_registry_def inherit_configs_def
          tab_sample_defs)
qed

text \<open>
  C5. The first update that brings a URL or the status \<^verbatim>\<open>complete\<close> to a tab marked as
  new deletes both marks, whatever the listener does next. Over any sequence of
  updates of one tab, with any answers of the collaborators, the listener calls
  \<^verbatim>\<open>Tree.behaveAutoAttachedTab\<close> at most once, whether or not the tab is then
  reopened in the container of its new parent; updates of a tab that does not carry
  the mark call it never.
\<close>

theorem deferred_resolution_attaches_once:
  "length (filter is_attach (snd (updates cfg t evs m))) \<le> 1 \<and>
   (navigated ci \<and> isNewTab m \<longrightarrow>
      isNewTab (fst (onUpdated cfg reg t ci m)) = False \<and>
      possibleOpenerTab (fst (onUpdated cfg reg t ci m)) = None \<and>
      filter is_attach (snd (updates cfg t evs (fst (onUpdated cfg reg t ci m)))) = [])"
proof (intro conjI impI)
  show "length (filter is_attach (snd (updates cfg t evs m))) \<le> 1"
    by (rule updates_attach_once)
next
  assume q: "navigated ci \<and> isNewTab m"
  with onUpdated_cases [of cfg reg t ci m]
  have m1: "fst (onUpdated cfg reg t ci m) = m\<lparr>isNewTab := False, possibleOpenerTab := None\<rparr>"
    by auto
  show "isNewTab (fst (onUpdated cfg reg t ci m)) = False"
    by (simp add: m1)
  show "possibleOpenerTab (fst (onUpdated cfg reg t ci m)) = None"
    by (simp add: m1)
  have "\<not> isNewTab (fst (onUpdated cfg reg t ci m))"
    by (simp add: m1)
  from updates_settled [OF this]
  show "filter is_attach (snd (updates cfg t evs (fst (onUpdated cfg reg t ci m)))) = []"
    by simp
qed

theorem deferred_resolution_attaches_once_witness:
  "navigated complete \<and> isNewTab provisional_marks \<and>
   site_of (url demo_registry 1) = Some ''example.org'' \<and>
   site_of (url demo_registry 2) = Some ''example.org'' \<and>
   snd (updates demo_configs 2 [(demo_registry, complete), (demo_registry, complete)]
          provisional_marks) = [BehaveAutoAttachedTab 2 (Some 1) 3 False] \<and>
   isNewTab (fst (onUpdated demo_configs demo_registry 2 complete provisional_marks)) = False \<and>
   snd (updates demo_configs 2 [(demo_registry, complete)]
          (fst (onUpdated demo_configs demo_registry 2 complete provisional_marks))) = [] \<and>
   snd (updates inherit_configs 2 [(container_registry, complete), (container_registry, complete)]
          provisional_marks) =
     [BehaveAutoAttachedTab 2 (Some 1) 3 False, OpenNewTab 1 2 ''firefox-container-1'',
      RemoveTab 2] \<and>
   snd (updates inherit_configs 2 [(container_registry, complete)]
          (fst (onUpdated inherit_configs container_registry 2 complete provisional_marks))) = []"
proof -
  have q: "navigated complete \<and> isNewTab provisional_marks"
    by (simp add: navigated_def complete_def provisional_marks_def)
  have sites: "site_of (url demo_registry 1) = Some ''example.org''"
      "site_of (url demo_registry 2) = Some ''example.org''"
    by (simp_all add: site_of_def word_char_def line_terminator_def Let_def demo_registry_def)
  have first: "onUpdated demo_configs demo_registry 2 complete provisional_marks =
      (\<lparr>isNewTab = False, possibleOpenerTab = None, originalOpener = None\<rparr>,
       [BehaveAutoAttachedTab 2 (Some 1) 3 False], False)"
    using sites q
    by (simp add: onUpdated_def resolveNewTab_def syncOpener_def handleNewTabFromActiveTab_def
          Let_def complete_def provisional_marks_def tab_sample_defs)
  have second: "onUpdated demo_configs demo_registry 2 complete
                  \<lparr>isNewTab = False, possibleOpenerTab = None, originalOpener = None\<rparr> =
      (\<lparr>isNewTab = False, possibleOpenerTab = None, originalOpener = None\<rparr>, [], False)"
    by (simp add: onUpdated_def resolveNewTab_def syncOpener_def complete_def tab_sample_defs)
  have third: "onUpdated inherit_configs container_registry 2 complete
                  \<lparr>isNewTab = False, possibleOpenerTab = None, originalOpener = None\<rparr> =
      (\<lparr>isNewTab = False, possibleOpenerTab = None, originalOpener = None\<rparr>, [], False)"
    by (simp add: onUpdated_def resolveNewTab_def syncOpener_def complete_def
          container_registry_def inherit_configs_def tab_sample_defs)
  from deferred_resolution_attaches_once
         [where cfg = demo_configs and t = 2 and m = provisional_marks and ci = complete
            and reg = demo_registry and evs = "[(demo_registry, complete)]"]
       deferred_resolution_attaches_once
         [where cfg = inherit_configs and t = 2 and m = provisional_marks and ci = complete
            and reg = container_registry and evs = "[(container_registry, complete)]"]
       q sites
  show ?thesis
    by (simp add: first second third update_reopens_in_container)
qed


section \<open>Properties of the listener of Tabs.onAttached\<close>


lemma moveTab_parents: "parents (moveTab d dest anchor tr) = parents tr"
  by (simp add: moveTab_def)








end
